theory Spec2Isabelle
  imports Main "HOL-Library.AList" "HOL-Library.Sublist"
begin

section \<open>The constraint store (class CSP of Assignment.py)\<close>

text \<open>
  Python dictionaries keep their keys in insertion order, and that order is visible in
  the program (\<^verbatim>\<open>min\<close> over \<^verbatim>\<open>assignment.items()\<close> returns the first minimal item),
  so a dictionary is an association list: \<open>map_of\<close> reads a key, \<open>AList.update\<close> writes
  one (in place when the key is present, at the end otherwise, as Python does). A Python
  dictionary has no repeated key; theorems that need this say \<open>distinct (map fst d)\<close>.

  A missing key raises \<^verbatim>\<open>KeyError\<close>, \<^verbatim>\<open>min\<close> of an empty sequence raises
  \<^verbatim>\<open>ValueError\<close>, and a recursion deeper than the interpreter allows raises
  \<^verbatim>\<open>RecursionError\<close>. Nothing in the program catches an exception, so a raised error
  is the result of the whole call: \<open>Inl\<close> of the error.
\<close>

datatype error = KeyError | ValueError | RecursionError

type_synonym ('v, 'a) assignment = "('v \<times> 'a list) list"

type_synonym 'v arc = "'v \<times> 'v"

record ('v, 'a) csp =
  variables :: "'v list"
  domains :: "('v, 'a) assignment"
  constraints :: "('v \<times> ('v \<times> ('a \<times> 'a) list) list) list"
  backtrack_called :: int
  backtrack_failed :: int

definition CSP_init :: "('v, 'a) csp" where
  "CSP_init = \<lparr>variables = [], domains = [], constraints = [],
               backtrack_called = 0, backtrack_failed = 0\<rparr>"

definition add_variable :: "('v, 'a) csp \<Rightarrow> 'v \<Rightarrow> 'a list \<Rightarrow> ('v, 'a) csp" where
  "add_variable self name domain =
     self\<lparr>variables := variables self @ [name],
          domains := AList.update name domain (domains self),
          constraints := AList.update name [] (constraints self)\<rparr>"

definition get_all_possible_pairs :: "'x list \<Rightarrow> 'y list \<Rightarrow> ('x \<times> 'y) list" where
  "get_all_possible_pairs a b = List.product a b"

definition get_all_arcs :: "('v, 'a) csp \<Rightarrow> 'v arc list" where
  "get_all_arcs self =
     concat (map (\<lambda>(i, row). map (\<lambda>(j, rel). (i, j)) row) (constraints self))"

definition get_all_neighboring_arcs :: "('v, 'a) csp \<Rightarrow> 'v \<Rightarrow> error + 'v arc list" where
  "get_all_neighboring_arcs self var =
     (case map_of (constraints self) var of
        None \<Rightarrow> Inl KeyError
      | Some row \<Rightarrow> Inr (map (\<lambda>(i, rel). (i, var)) row))"

text \<open>\<open>relation self i j\<close> is the read \<^verbatim>\<open>self.constraints[i][j]\<close>; \<open>None\<close> is its
  \<^verbatim>\<open>KeyError\<close>.\<close>

definition relation :: "('v, 'a) csp \<Rightarrow> 'v \<Rightarrow> 'v \<Rightarrow> ('a \<times> 'a) list option" where
  "relation self i j =
     (case map_of (constraints self) i of
        None \<Rightarrow> None
      | Some row \<Rightarrow> map_of row j)"

definition add_constraint_one_way ::
  "('v, 'a) csp \<Rightarrow> 'v \<Rightarrow> 'v \<Rightarrow> ('a \<Rightarrow> 'a \<Rightarrow> bool) \<Rightarrow> error + ('v, 'a) csp" where
  "add_constraint_one_way self i j filter_function =
     (case map_of (constraints self) i of
        None \<Rightarrow> Inl KeyError
      | Some row \<Rightarrow>
          (case (case map_of row j of
                   Some rel \<Rightarrow> Inr rel
                 | None \<Rightarrow>
                     (case map_of (domains self) i of
                        None \<Rightarrow> Inl KeyError
                      | Some di \<Rightarrow>
                          (case map_of (domains self) j of
                             None \<Rightarrow> Inl KeyError
                           | Some dj \<Rightarrow> Inr (get_all_possible_pairs di dj)))) of
             Inl e \<Rightarrow> Inl e
           | Inr rel \<Rightarrow>
               Inr (self\<lparr>constraints :=
                      AList.update i
                        (AList.update j (filter (\<lambda>(x, y). filter_function x y) rel) row)
                        (constraints self)\<rparr>)))"

fun add_all_different_loop ::
  "('v, 'a) csp \<Rightarrow> ('v \<times> 'v) list \<Rightarrow> error + ('v, 'a) csp" where
  "add_all_different_loop self [] = Inr self"
| "add_all_different_loop self ((i, j) # rest) =
     (if i \<noteq> j then
        (case add_constraint_one_way self i j (\<lambda>x y. x \<noteq> y) of
           Inl e \<Rightarrow> Inl e
         | Inr self' \<Rightarrow> add_all_different_loop self' rest)
      else add_all_different_loop self rest)"

definition add_all_different_constraint ::
  "('v, 'a) csp \<Rightarrow> 'v list \<Rightarrow> error + ('v, 'a) csp" where
  "add_all_different_constraint self vars =
     add_all_different_loop self (get_all_possible_pairs vars vars)"

section \<open>Search state and arc consistency\<close>

text \<open>
  An assignment maps every variable to the list of its remaining values. The lists of
  different variables are different objects (\<^verbatim>\<open>add_variable\<close> stores a fresh
  \<^verbatim>\<open>list(domain)\<close>, \<^verbatim>\<open>copy.deepcopy\<close> and \<^verbatim>\<open>[value]\<close> make fresh lists),
  so in this section an assignment is a value and a function that mutates it returns the
  new one. The store-level model of the last section makes the objects explicit.
\<close>

fun assignment_is_done :: "('v, 'a) assignment \<Rightarrow> bool" where
  "assignment_is_done [] = True"
| "assignment_is_done ((var, possibilities) # rest) =
     (if length possibilities > 1 then False else assignment_is_done rest)"

text \<open>Python's \<^verbatim>\<open>min(iterable, key=...)\<close>: the first item whose key is minimal.\<close>

fun min_by :: "('x \<Rightarrow> nat) \<Rightarrow> 'x \<Rightarrow> 'x list \<Rightarrow> 'x" where
  "min_by key best [] = best"
| "min_by key best (x # xs) = min_by key (if key x < key best then x else best) xs"

definition select_unassigned_variable :: "('v, 'a) assignment \<Rightarrow> error + 'v" where
  "select_unassigned_variable assignment =
     (case filter (\<lambda>item. length (snd item) > 1) assignment of
        [] \<Rightarrow> Inl ValueError
      | item # undecided_variables \<Rightarrow>
          Inr (fst (min_by (\<lambda>item. length (snd item)) item undecided_variables)))"

definition order_domain_values :: "'v \<Rightarrow> ('v, 'a) assignment \<Rightarrow> error + 'a list" where
  "order_domain_values var assignment =
     (case map_of assignment var of None \<Rightarrow> Inl KeyError | Some d \<Rightarrow> Inr d)"

text \<open>
  \<^verbatim>\<open>any((x, y) in self.constraints[i][j] for y in assignment[j])\<close>: the relation is
  looked up once per \<open>y\<close>, so an empty \<open>assignment[j]\<close> never raises.
\<close>

fun any_support :: "('v, 'a) csp \<Rightarrow> 'v \<Rightarrow> 'v \<Rightarrow> 'a \<Rightarrow> 'a list \<Rightarrow> error + bool" where
  "any_support self i j x [] = Inr False"
| "any_support self i j x (y # ys) =
     (case relation self i j of
        None \<Rightarrow> Inl KeyError
      | Some rel \<Rightarrow> if (x, y) \<in> set rel then Inr True else any_support self i j x ys)"

text \<open>
  The loop of \<^verbatim>\<open>revise\<close> iterates over the list \<^verbatim>\<open>assignment[i]\<close> while its body
  removes from the same list. A Python list iterator is an index into the live list: each
  round it stops when the index has reached the current length, otherwise yields the
  element at the index and advances by one. \<open>di\<close> is the live list, \<open>k\<close> the index;
  \<^verbatim>\<open>list.remove(x)\<close> deletes the first occurrence (\<open>remove1\<close>). When \<open>j = i\<close> the
  list read as \<^verbatim>\<open>assignment[j]\<close> is the live list itself.
\<close>

function revise_loop ::
  "('v, 'a) csp \<Rightarrow> ('v, 'a) assignment \<Rightarrow> 'v \<Rightarrow> 'v \<Rightarrow> nat \<Rightarrow> 'a list \<Rightarrow> bool
     \<Rightarrow> error + ('a list \<times> bool)" where
  "revise_loop self assignment i j k di revised =
     (if k < length di then
        (case (if j = i then Some di else map_of assignment j) of
           None \<Rightarrow> Inl KeyError
         | Some dj \<Rightarrow>
             (case any_support self i j (di ! k) dj of
                Inl e \<Rightarrow> Inl e
              | Inr found \<Rightarrow>
                  if \<not> found
                  then revise_loop self assignment i j (Suc k) (remove1 (di ! k) di) True
                  else revise_loop self assignment i j (Suc k) di revised))
      else Inr (di, revised))"
  by pat_completeness auto
termination
  by (relation "measure (\<lambda>(self, assignment, i, j, k, di, revised). length di - k)")
     (auto simp: length_remove1)

definition revise ::
  "('v, 'a) csp \<Rightarrow> ('v, 'a) assignment \<Rightarrow> 'v \<Rightarrow> 'v
     \<Rightarrow> error + (('v, 'a) assignment \<times> bool)" where
  "revise self assignment i j =
     (case map_of assignment i of
        None \<Rightarrow> Inl KeyError
      | Some di \<Rightarrow>
          (case revise_loop self assignment i j 0 di False of
             Inl e \<Rightarrow> Inl e
           | Inr (di', revised) \<Rightarrow> Inr (AList.update i di' assignment, revised)))"

text \<open>The recursive equation of \<open>revise_loop\<close> is unfolded by hand, one round at a time.\<close>

declare revise_loop.simps [simp del]

definition domain_total :: "('v, 'a) assignment \<Rightarrow> nat" where
  "domain_total assignment = sum_list (map (\<lambda>(var, d). length d) assignment)"

lemma revise_loop_shrinks:
  "revise_loop self assignment i j k di revised = Inr (di', r) \<Longrightarrow>
     length di' \<le> length di \<and> (r \<longrightarrow> revised \<or> length di' < length di) \<and>
     (\<not> r \<longrightarrow> di' = di \<and> \<not> revised)"
proof (induction self assignment i j k di revised rule: revise_loop.induct)
  case (1 self assignment i j k di revised)
  show ?case
  proof (cases "k < length di")
    case False
    with "1.prems" show ?thesis by (simp add: revise_loop.simps[of _ _ _ _ k di])
  next
    case True
    then obtain dj where dj: "(if j = i then Some di else map_of assignment j) = Some dj"
      using "1.prems"
      by (auto simp: revise_loop.simps[of _ _ _ _ k di] split: option.splits if_splits)
    then obtain found where f: "any_support self i j (di ! k) dj = Inr found"
      using "1.prems" True
      by (auto simp: revise_loop.simps[of _ _ _ _ k di]
               split: option.splits sum.splits if_splits)
    show ?thesis
    proof (cases found)
      case True
      with \<open>k < length di\<close> dj f "1.prems"
      have "revise_loop self assignment i j (Suc k) di revised = Inr (di', r)"
        by (auto simp: revise_loop.simps[of _ _ _ _ k di] split: if_splits)
      from "1.IH"(2)[OF \<open>k < length di\<close> dj f _ this] True show ?thesis by simp
    next
      case False
      with \<open>k < length di\<close> dj f "1.prems"
      have "revise_loop self assignment i j (Suc k) (remove1 (di ! k) di) True = Inr (di', r)"
        by (auto simp: revise_loop.simps[of _ _ _ _ k di] split: if_splits)
      from "1.IH"(1)[OF \<open>k < length di\<close> dj f _ this] False \<open>k < length di\<close>
      show ?thesis by (auto simp: length_remove1)
    qed
  qed
qed

lemma domain_total_update:
  "map_of assignment i = Some di \<Longrightarrow>
   domain_total (AList.update i di' assignment) + length di =
   domain_total assignment + length di'"
  by (induction assignment) (auto simp: domain_total_def)

lemma revise_total:
  assumes "revise self assignment i j = Inr (assignment', r)"
  shows "(r \<longrightarrow> domain_total assignment' < domain_total assignment) \<and>
         (\<not> r \<longrightarrow> assignment' = assignment)"
proof -
  from assms obtain di di' where di: "map_of assignment i = Some di"
    and l: "revise_loop self assignment i j 0 di False = Inr (di', r)"
    and a: "assignment' = AList.update i di' assignment"
    by (auto simp: revise_def split: option.splits sum.splits)
  from revise_loop_shrinks[OF l] domain_total_update[OF di, of di'] a di
  show ?thesis by (auto simp: AList.update_triv)
qed

text \<open>
  \<^verbatim>\<open>inference\<close> keeps its work list in a Python \<^verbatim>\<open>set\<close>: \<^verbatim>\<open>set(queue)\<close> drops
  repeated arcs (\<open>remdups\<close>), \<^verbatim>\<open>add\<close> of a member changes nothing, and \<^verbatim>\<open>pop()\<close>
  removes an arbitrary member. Which member is not fixed by the language, so the model
  takes the choice as a parameter \<open>pop\<close>: any function of the current assignment and
  work list; the arc at index \<open>pop assignment queue_set mod length queue_set\<close> is taken.
  Between two rounds of one run either the assignment or the work list has shrunk, so no
  state repeats in a run and every order of popping is the behaviour of some \<open>pop\<close>.
  The function returns the assignment it has mutated together with its Boolean result.
\<close>

type_synonym ('v, 'a) scheduler = "('v, 'a) assignment \<Rightarrow> 'v arc list \<Rightarrow> nat"

definition queue_add :: "'v arc list \<Rightarrow> 'v arc \<Rightarrow> 'v arc list" where
  "queue_add queue_set t = (if t \<in> set queue_set then queue_set else queue_set @ [t])"

definition queue_pop :: "('v, 'a) scheduler \<Rightarrow> ('v, 'a) assignment \<Rightarrow> 'v arc list \<Rightarrow> 'v arc" where
  "queue_pop pop assignment queue_set =
     queue_set ! (pop assignment queue_set mod length queue_set)"

lemma queue_pop_member: "queue_set \<noteq> [] \<Longrightarrow> queue_pop pop assignment queue_set \<in> set queue_set"
  by (simp add: queue_pop_def)

function inference_loop ::
  "('v, 'a) scheduler \<Rightarrow> ('v, 'a) csp \<Rightarrow> ('v, 'a) assignment \<Rightarrow> 'v arc list
     \<Rightarrow> error + (('v, 'a) assignment \<times> bool)" where
  "inference_loop pop self assignment queue_set =
     (if length queue_set > 0 then
        (case revise self assignment (fst (queue_pop pop assignment queue_set))
                (snd (queue_pop pop assignment queue_set)) of
           Inl e \<Rightarrow> Inl e
         | Inr (assignment1, revised) \<Rightarrow>
             if revised then
               (case map_of assignment1 (fst (queue_pop pop assignment queue_set)) of
                  None \<Rightarrow> Inl KeyError
                | Some d \<Rightarrow>
                    if length d = 0 then Inr (assignment1, False)
                    else
                      (case get_all_neighboring_arcs self
                              (fst (queue_pop pop assignment queue_set)) of
                         Inl e \<Rightarrow> Inl e
                       | Inr neighbors \<Rightarrow>
                           inference_loop pop self assignment1
                             (foldl queue_add
                                (remove1 (queue_pop pop assignment queue_set) queue_set)
                                neighbors)))
             else inference_loop pop self assignment1
                    (remove1 (queue_pop pop assignment queue_set) queue_set))
      else Inr (assignment, True))"
  by pat_completeness auto
termination
proof (relation "measures [\<lambda>(pop, self, assignment, queue_set). domain_total assignment,
                           \<lambda>(pop, self, assignment, queue_set). length queue_set]",
       goal_cases)
  case 1
  show ?case by simp
next
  case (2 pop self assignment queue_set x2 assignment1 revised d neighbors)
  then have "revise self assignment (fst (queue_pop pop assignment queue_set))
               (snd (queue_pop pop assignment queue_set)) = Inr (assignment1, True)"
    by simp
  from revise_total[OF this] show ?case by simp
next
  case (3 pop self assignment queue_set x2 assignment1 revised)
  then have "revise self assignment (fst (queue_pop pop assignment queue_set))
               (snd (queue_pop pop assignment queue_set)) = Inr (assignment1, False)"
    by simp
  from revise_total[OF this] 3(1) queue_pop_member[of queue_set pop assignment]
  show ?case by (auto simp: length_remove1)
qed

declare inference_loop.simps [simp del]

definition inference ::
  "('v, 'a) scheduler \<Rightarrow> ('v, 'a) csp \<Rightarrow> ('v, 'a) assignment \<Rightarrow> 'v arc list
     \<Rightarrow> error + (('v, 'a) assignment \<times> bool)" where
  "inference pop self assignment queue = inference_loop pop self assignment (remdups queue)"

section \<open>Backtracking search\<close>

text \<open>
  \<^verbatim>\<open>backtrack\<close> returns \<^verbatim>\<open>False\<close> or an assignment; \<^verbatim>\<open>if result:\<close> takes an empty
  dictionary for false as well. The counters are fields of \<^verbatim>\<open>self\<close>, so the store is
  passed through and returned. The first argument is the number of nested activations
  of \<^verbatim>\<open>backtrack\<close> the interpreter still allows: with none left the call raises
  \<^verbatim>\<open>RecursionError\<close>. The loop over the candidate values takes the recursive call
  \<open>rec\<close> as a parameter. Every round starts from \<open>assignment\<close> itself: the deep copy
  of a value is the value.
\<close>

datatype ('v, 'a) result = Failure | Solution "('v, 'a) assignment"

fun truthy :: "('v, 'a) result \<Rightarrow> bool" where
  "truthy Failure = False"
| "truthy (Solution assignment) = (assignment \<noteq> [])"

fun backtrack_loop ::
  "(('v, 'a) csp \<Rightarrow> ('v, 'a) assignment \<Rightarrow> error + (('v, 'a) csp \<times> ('v, 'a) result))
     \<Rightarrow> ('v, 'a) scheduler \<Rightarrow> ('v, 'a) csp \<Rightarrow> ('v, 'a) assignment \<Rightarrow> 'v \<Rightarrow> 'a list
     \<Rightarrow> error + (('v, 'a) csp \<times> ('v, 'a) result)" where
  "backtrack_loop rec pop self assignment unassigned_variable [] =
     Inr (self\<lparr>backtrack_failed := backtrack_failed self + 1\<rparr>, Failure)"
| "backtrack_loop rec pop self assignment unassigned_variable (val # rest) =
     (case get_all_neighboring_arcs self unassigned_variable of
        Inl e \<Rightarrow> Inl e
      | Inr neighbors \<Rightarrow>
          (case inference pop self (AList.update unassigned_variable [val] assignment)
                  neighbors of
             Inl e \<Rightarrow> Inl e
           | Inr (assignment_copy, consistent) \<Rightarrow>
               if consistent then
                 (case rec self assignment_copy of
                    Inl e \<Rightarrow> Inl e
                  | Inr (self', result) \<Rightarrow>
                      if truthy result then Inr (self', result)
                      else backtrack_loop rec pop self' assignment unassigned_variable rest)
               else backtrack_loop rec pop self assignment unassigned_variable rest))"

fun backtrack ::
  "nat \<Rightarrow> ('v, 'a) scheduler \<Rightarrow> ('v, 'a) csp \<Rightarrow> ('v, 'a) assignment
     \<Rightarrow> error + (('v, 'a) csp \<times> ('v, 'a) result)" where
  "backtrack 0 pop self assignment = Inl RecursionError"
| "backtrack (Suc depth) pop self assignment =
     (if assignment_is_done assignment
      then Inr (self\<lparr>backtrack_called := backtrack_called self + 1\<rparr>, Solution assignment)
      else
        (case select_unassigned_variable assignment of
           Inl e \<Rightarrow> Inl e
         | Inr unassigned_variable \<Rightarrow>
             (case order_domain_values unassigned_variable assignment of
                Inl e \<Rightarrow> Inl e
              | Inr vals \<Rightarrow>
                  backtrack_loop (backtrack depth pop) pop
                    (self\<lparr>backtrack_called := backtrack_called self + 1\<rparr>)
                    assignment unassigned_variable vals)))"

definition backtracking_search ::
  "nat \<Rightarrow> ('v, 'a) scheduler \<Rightarrow> ('v, 'a) csp \<Rightarrow> error + (('v, 'a) csp \<times> ('v, 'a) result)" where
  "backtracking_search depth pop self =
     (case inference pop self (domains self) (get_all_arcs self) of
        Inl e \<Rightarrow> Inl e
      | Inr (assignment, consistent) \<Rightarrow> backtrack depth pop self assignment)"

section \<open>Stores used as concrete inputs\<close>

text \<open>Each store is written out as the record the program holds; the lemmas
  \<open>*_built\<close> below show the sequence of calls that builds it.\<close>

definition contradictory_row :: "(string, nat) csp" where
  "contradictory_row =
     \<lparr>variables = [''A'', ''B''], domains = [(''A'', [5]), (''B'', [5])],
      constraints = [(''A'', [(''B'', [])]), (''B'', [(''A'', [])])],
      backtrack_called = 0, backtrack_failed = 0\<rparr>"

definition two_contradictory_rows :: "(string, nat) csp" where
  "two_contradictory_rows =
     \<lparr>variables = [''A'', ''B'', ''C'', ''D''],
      domains = [(''A'', [5]), (''B'', [5]), (''C'', [7]), (''D'', [7])],
      constraints = [(''A'', [(''B'', [])]), (''B'', [(''A'', [])]),
                     (''C'', [(''D'', [])]), (''D'', [(''C'', [])])],
      backtrack_called = 0, backtrack_failed = 0\<rparr>"

definition less_store :: "(string, nat) csp" where
  "less_store =
     \<lparr>variables = [''A'', ''B''], domains = [(''A'', [1, 2, 3]), (''B'', [1])],
      constraints = [(''A'', [(''B'', [])]), (''B'', [])],
      backtrack_called = 0, backtrack_failed = 0\<rparr>"

definition one_way_store :: "(string, nat) csp" where
  "one_way_store =
     \<lparr>variables = [''A'', ''B''], domains = [(''A'', [1, 2]), (''B'', [1, 2])],
      constraints = [(''A'', [(''B'', [(1, 2), (2, 1)])]), (''B'', [])],
      backtrack_called = 0, backtrack_failed = 0\<rparr>"

definition two_way_store :: "(string, nat) csp" where
  "two_way_store =
     \<lparr>variables = [''A'', ''B''], domains = [(''A'', [1, 2]), (''B'', [1, 2])],
      constraints = [(''A'', [(''B'', [(1, 2), (2, 1)])]), (''B'', [(''A'', [(1, 2), (2, 1)])])],
      backtrack_called = 0, backtrack_failed = 0\<rparr>"

definition strict_order_store :: "(string, nat) csp" where
  "strict_order_store =
     \<lparr>variables = [''X'', ''Y''], domains = [(''X'', [1]), (''Y'', [1])],
      constraints = [(''X'', [(''Y'', [])]), (''Y'', [(''X'', [])])],
      backtrack_called = 0, backtrack_failed = 0\<rparr>"

section \<open>Predicates of the claims\<close>

text \<open>A relation is registered for the ordered pair \<open>(i, j)\<close> when
  \<^verbatim>\<open>self.constraints[i][j]\<close> exists.\<close>

definition registered :: "('v, 'a) csp \<Rightarrow> 'v \<Rightarrow> 'v \<Rightarrow> bool" where
  "registered self i j = (relation self i j \<noteq> None)"

text \<open>Successive calls \<^verbatim>\<open>add_constraint_one_way(i, j, p)\<close> for the predicates of a
  list, in order.\<close>

fun add_constraints_one_way ::
  "('v, 'a) csp \<Rightarrow> 'v \<Rightarrow> 'v \<Rightarrow> ('a \<Rightarrow> 'a \<Rightarrow> bool) list \<Rightarrow> error + ('v, 'a) csp" where
  "add_constraints_one_way self i j [] = Inr self"
| "add_constraints_one_way self i j (p # ps) =
     (case add_constraint_one_way self i j p of
        Inl e \<Rightarrow> Inl e
      | Inr self' \<Rightarrow> add_constraints_one_way self' i j ps)"

text \<open>The list a first call for \<open>(i, j)\<close> filters: the stored relation when there
  is one, the product of the two declared domains otherwise.\<close>

definition initial_pairs :: "('v, 'a) csp \<Rightarrow> 'v \<Rightarrow> 'v \<Rightarrow> ('a \<times> 'a) list option" where
  "initial_pairs self i j =
     (case relation self i j of
        Some rel \<Rightarrow> Some rel
      | None \<Rightarrow>
          (case map_of (domains self) i of
             None \<Rightarrow> None
           | Some di \<Rightarrow>
               (case map_of (domains self) j of
                  None \<Rightarrow> None
                | Some dj \<Rightarrow> Some (List.product di dj))))"

text \<open>\<open>narrows a' a\<close>: the two assignments have the same variables in the same order
  and every domain of \<open>a'\<close> is a subsequence of the domain of the same variable in \<open>a\<close>.\<close>

definition narrows :: "('v, 'a) assignment \<Rightarrow> ('v, 'a) assignment \<Rightarrow> bool" where
  "narrows a' a = list_all2 (\<lambda>(v', d') (v, d). v' = v \<and> subseq d' d) a' a"

text \<open>The number of variables with more than one value left.\<close>

definition undecided :: "('v, 'a) assignment \<Rightarrow> nat" where
  "undecided assignment = length (filter (\<lambda>(var, d). length d > 1) assignment)"

text \<open>
  The inputs the builders of the program produce: the assignment has no repeated key,
  every variable of the assignment has a row of constraints, and every registered arc
  joins two variables of the assignment and is registered in both directions.
\<close>

definition well_formed :: "('v, 'a) csp \<Rightarrow> ('v, 'a) assignment \<Rightarrow> bool" where
  "well_formed self assignment \<longleftrightarrow>
     distinct (map fst assignment) \<and> distinct (map fst (constraints self)) \<and>
     set (map fst assignment) \<subseteq> set (map fst (constraints self)) \<and>
     (\<forall>(i, j) \<in> set (get_all_arcs self).
        i \<in> set (map fst assignment) \<and> j \<in> set (map fst assignment) \<and>
        (j, i) \<in> set (get_all_arcs self))"

text \<open>A call returned a value, and the constraints of the store it returned are those
  of the store it was given.\<close>

definition keeps_store ::
  "('v, 'a) csp \<Rightarrow> error + (('v, 'a) csp \<times> ('v, 'a) result) \<Rightarrow> bool" where
  "keeps_store self out =
     (case out of Inl e \<Rightarrow> False | Inr (s', r) \<Rightarrow> constraints s' = constraints self)"

text \<open>
  The assignment states an execution can pass through, starting from the clone of the
  declared domains: the result of \<^verbatim>\<open>revise\<close>, of \<^verbatim>\<open>inference\<close>, of fixing
  a variable to one of its values, and of \<^verbatim>\<open>backtrack\<close>, in any order and any number
  of times.
\<close>

inductive reachable :: "('v, 'a) csp \<Rightarrow> ('v, 'a) assignment \<Rightarrow> bool"
  for self :: "('v, 'a) csp" where
  clone: "reachable self (domains self)"
| by_revise: "reachable self a \<Longrightarrow> revise s a i j = Inr (a', r) \<Longrightarrow> reachable self a'"
| by_inference: "reachable self a \<Longrightarrow> inference pop s a queue = Inr (a', c) \<Longrightarrow> reachable self a'"
| by_choice: "reachable self a \<Longrightarrow> order_domain_values var a = Inr vals \<Longrightarrow> val \<in> set vals \<Longrightarrow>
              reachable self (AList.update var [val] a)"
| by_backtrack: "reachable self a \<Longrightarrow> backtrack depth pop s a = Inr (s', Solution a') \<Longrightarrow>
                 reachable self a'"

section \<open>Building the concrete stores\<close>

lemma contradictory_row_built:
  "add_all_different_constraint (add_variable (add_variable CSP_init ''A'' [5]) ''B'' [5])
     [''A'', ''B''] = Inr contradictory_row"
  by (simp add: contradictory_row_def add_all_different_constraint_def
      add_constraint_one_way_def add_variable_def CSP_init_def get_all_possible_pairs_def)

lemma two_contradictory_rows_built:
  "(case add_all_different_constraint
     (add_variable (add_variable (add_variable (add_variable CSP_init
        ''A'' [5]) ''B'' [5]) ''C'' [7]) ''D'' [7]) [''A'', ''B''] of
     Inl e \<Rightarrow> Inl e
   | Inr self \<Rightarrow> add_all_different_constraint self [''C'', ''D'']) =
   Inr two_contradictory_rows"
  by (simp add: two_contradictory_rows_def add_all_different_constraint_def
      add_constraint_one_way_def add_variable_def CSP_init_def get_all_possible_pairs_def)

lemma less_store_built:
  "add_constraint_one_way (add_variable (add_variable CSP_init ''A'' [1, 2, 3]) ''B'' [1])
     ''A'' ''B'' (\<lambda>x y. x < y) = Inr less_store"
  by (simp add: less_store_def add_constraint_one_way_def add_variable_def CSP_init_def
      get_all_possible_pairs_def)

lemma one_way_store_built:
  "add_constraint_one_way (add_variable (add_variable CSP_init ''A'' [1, 2]) ''B'' [1, 2])
     ''A'' ''B'' (\<lambda>x y. x \<noteq> y) = Inr one_way_store"
  by (simp add: one_way_store_def add_constraint_one_way_def add_variable_def CSP_init_def
      get_all_possible_pairs_def)

lemma two_way_store_built:
  "add_all_different_constraint
     (add_variable (add_variable CSP_init ''A'' [1, 2]) ''B'' [1, 2]) [''A'', ''B''] =
   Inr two_way_store"
  by (simp add: two_way_store_def add_all_different_constraint_def
      add_constraint_one_way_def add_variable_def CSP_init_def get_all_possible_pairs_def)

lemma strict_order_store_built:
  "(case add_constraint_one_way (add_variable (add_variable CSP_init ''X'' [1]) ''Y'' [1])
          ''X'' ''Y'' (\<lambda>x y. x < y) of
      Inl e \<Rightarrow> Inl e
    | Inr self \<Rightarrow> add_constraint_one_way self ''Y'' ''X'' (\<lambda>y x. x < y)) =
   Inr strict_order_store"
  by (simp add: strict_order_store_def add_constraint_one_way_def add_variable_def CSP_init_def
      get_all_possible_pairs_def)

section \<open>Auxiliary facts\<close>

lemma queue_pop_cases2: "queue_pop pop a [x, y] = x \<or> queue_pop pop a [x, y] = y"
  using queue_pop_member[of "[x, y]" pop a] by auto

lemma min_by_least:
  "min_by key best xs \<in> set (best # xs) \<and>
   (\<forall>x \<in> set (best # xs). key (min_by key best xs) \<le> key x)"
proof (induction xs arbitrary: best)
  case Nil
  show ?case by simp
next
  case (Cons a xs)
  from Cons.IH[of "if key a < key best then a else best"]
  show ?case by (auto split: if_splits)
qed

lemma queue_pop_cases4:
  "queue_pop pop a [w, x, y, z] \<in> {w, x, y, z}"
  using queue_pop_member[of "[w, x, y, z]" pop a] by auto

lemma assignment_is_done_iff:
  "assignment_is_done assignment \<longleftrightarrow> (\<forall>(v, d) \<in> set assignment. \<not> length d > 1)"
  by (induction assignment rule: assignment_is_done.induct) auto

lemma strict_order_search:
  "\<exists>self' assignment.
     backtracking_search (Suc depth) pop strict_order_store = Inr (self', Solution assignment) \<and>
     [] \<in> snd ` set assignment"
proof -
  let ?q = "[(''X'', ''Y''), (''Y'', ''X'')]"
  let ?a = "[(''X'', [1::nat]), (''Y'', [1])]"
  have arcs: "get_all_arcs strict_order_store = ?q"
    by (simp add: strict_order_store_def get_all_arcs_def)
  have doms: "domains strict_order_store = ?a"
    by (simp add: strict_order_store_def)
  from queue_pop_cases2[of pop ?a]
  consider "queue_pop pop ?a ?q = (''X'', ''Y'')" | "queue_pop pop ?a ?q = (''Y'', ''X'')"
    by blast
  then show ?thesis
  proof cases
    case 1
    then have "inference pop strict_order_store ?a ?q = Inr ([(''X'', []), (''Y'', [1])], False)"
      by (simp add: inference_def inference_loop.simps[of _ _ _ ?q] revise_def
          revise_loop.simps relation_def strict_order_store_def)
    then show ?thesis
      by (simp add: backtracking_search_def arcs doms)
  next
    case 2
    then have "inference pop strict_order_store ?a ?q = Inr ([(''X'', [1]), (''Y'', [])], False)"
      by (simp add: inference_def inference_loop.simps[of _ _ _ ?q] revise_def
          revise_loop.simps relation_def strict_order_store_def)
    then show ?thesis
      by (simp add: backtracking_search_def arcs doms)
  qed
qed

lemma relation_update:
  "map_of (constraints self) i = Some row \<Longrightarrow>
   relation (self\<lparr>constraints := AList.update i (AList.update j rel row) (constraints self)\<rparr>) a b =
     (if (a, b) = (i, j) then Some rel else relation self a b)"
  by (simp add: relation_def update_conv')

lemma add_constraint_one_way_relation:
  assumes "add_constraint_one_way self i j f = Inr self'"
  shows "\<exists>rel. initial_pairs self i j = Some rel \<and>
           relation self' i j = Some (filter (\<lambda>(x, y). f x y) rel) \<and>
           (\<forall>a b. (a, b) \<noteq> (i, j) \<longrightarrow> relation self' a b = relation self a b) \<and>
           domains self' = domains self"
proof -
  from assms obtain row where row: "map_of (constraints self) i = Some row"
    by (auto simp: add_constraint_one_way_def split: option.splits)
  show ?thesis
  proof (cases "map_of row j")
    case (Some rel)
    with assms row
    have s': "self' = self\<lparr>constraints :=
        AList.update i (AList.update j (filter (\<lambda>(x, y). f x y) rel) row) (constraints self)\<rparr>"
      by (simp add: add_constraint_one_way_def)
    from Some row have "initial_pairs self i j = Some rel"
      by (simp add: initial_pairs_def relation_def)
    moreover have "relation self' i j = Some (filter (\<lambda>(x, y). f x y) rel)"
      unfolding s' using row by (simp add: relation_update)
    moreover have "\<forall>a b. (a, b) \<noteq> (i, j) \<longrightarrow> relation self' a b = relation self a b"
      unfolding s' using row by (simp add: relation_update)
    moreover have "domains self' = domains self" unfolding s' by simp
    ultimately show ?thesis by blast
  next
    case None
    with assms row obtain di dj where di: "map_of (domains self) i = Some di"
      and dj: "map_of (domains self) j = Some dj"
      by (auto simp: add_constraint_one_way_def split: option.splits)
    with None assms row
    have s': "self' = self\<lparr>constraints :=
        AList.update i (AList.update j (filter (\<lambda>(x, y). f x y) (List.product di dj)) row)
          (constraints self)\<rparr>"
      by (simp add: add_constraint_one_way_def get_all_possible_pairs_def)
    from None row di dj have "initial_pairs self i j = Some (List.product di dj)"
      by (simp add: initial_pairs_def relation_def)
    moreover have "relation self' i j = Some (filter (\<lambda>(x, y). f x y) (List.product di dj))"
      unfolding s' using row by (simp add: relation_update)
    moreover have "\<forall>a b. (a, b) \<noteq> (i, j) \<longrightarrow> relation self' a b = relation self a b"
      unfolding s' using row by (simp add: relation_update)
    moreover have "domains self' = domains self" unfolding s' by simp
    ultimately show ?thesis by blast
  qed
qed

lemma initial_pairs_registered:
  "relation self i j = Some rel \<Longrightarrow> initial_pairs self i j = Some rel"
  by (simp add: initial_pairs_def)

lemma add_constraints_one_way_relation:
  assumes "add_constraints_one_way self i j ps = Inr self'" and "ps \<noteq> []"
  shows "\<exists>rel. initial_pairs self i j = Some rel \<and>
           relation self' i j = Some (filter (\<lambda>(x, y). \<forall>p \<in> set ps. p x y) rel) \<and>
           (\<forall>a b. (a, b) \<noteq> (i, j) \<longrightarrow> relation self' a b = relation self a b) \<and>
           domains self' = domains self"
  using assms
proof (induction ps arbitrary: self)
  case Nil
  then show ?case by simp
next
  case (Cons p ps)
  from Cons.prems(1) obtain self1 where one: "add_constraint_one_way self i j p = Inr self1"
    and more: "add_constraints_one_way self1 i j ps = Inr self'"
    by (auto split: sum.splits)
  from add_constraint_one_way_relation[OF one] obtain rel
    where init: "initial_pairs self i j = Some rel"
      and r1: "relation self1 i j = Some (filter (\<lambda>(x, y). p x y) rel)"
      and f1: "\<forall>a b. (a, b) \<noteq> (i, j) \<longrightarrow> relation self1 a b = relation self a b"
      and d1: "domains self1 = domains self"
    by blast
  show ?case
  proof (cases "ps = []")
    case True
    with more have "self' = self1" by simp
    with init r1 f1 d1 True show ?thesis by simp
  next
    case False
    from Cons.IH[OF more False] initial_pairs_registered[OF r1]
    have r2: "relation self' i j =
          Some (filter (\<lambda>(x, y). \<forall>p \<in> set ps. p x y) (filter (\<lambda>(x, y). p x y) rel))"
      and f2: "\<forall>a b. (a, b) \<noteq> (i, j) \<longrightarrow> relation self' a b = relation self1 a b"
      and d2: "domains self' = domains self1"
      by auto
    have "filter (\<lambda>(x, y). \<forall>p \<in> set ps. p x y) (filter (\<lambda>(x, y). p x y) rel) =
          filter (\<lambda>(x, y). \<forall>q \<in> set (p # ps). q x y) rel"
      by (auto intro: filter_cong)
    with r2 f2 d2 init f1 d1 show ?thesis by simp
  qed
qed

lemma narrows_refl: "narrows a a"
  unfolding narrows_def by (rule list_all2_refl) auto

lemma narrows_trans: "narrows a b \<Longrightarrow> narrows b c \<Longrightarrow> narrows a c"
  unfolding narrows_def
  by (erule list_all2_trans[rotated], assumption) (auto intro: subseq_order.trans)

lemma narrows_keys: "narrows a' a \<Longrightarrow> map fst a' = map fst a"
  unfolding narrows_def by (induction a' a rule: list_all2_induct) auto

lemma narrows_map_of:
  "narrows a' a \<Longrightarrow> map_of a' v = Some d' \<Longrightarrow> \<exists>d. map_of a v = Some d \<and> subseq d' d"
  unfolding narrows_def by (induction a' a rule: list_all2_induct) (auto split: if_splits)

lemma narrows_update:
  "map_of a i = Some d \<Longrightarrow> subseq d' d \<Longrightarrow> narrows (AList.update i d' a) a"
proof (induction a)
  case Nil
  then show ?case by simp
next
  case (Cons p a)
  have tail: "narrows a a" by (rule narrows_refl)
  from Cons show ?case
    using tail by (cases p) (auto simp: narrows_def)
qed

lemma narrows_total: "narrows a' a \<Longrightarrow> domain_total a' \<le> domain_total a"
  unfolding narrows_def domain_total_def
  by (induction a' a rule: list_all2_induct) (auto dest: list_emb_length simp: add_mono)

lemma narrows_undecided: "narrows a' a \<Longrightarrow> undecided a' \<le> undecided a"
  unfolding narrows_def undecided_def
  by (induction a' a rule: list_all2_induct) (auto dest: list_emb_length)

lemma subseq_remove1: "subseq (remove1 x xs) xs"
  by (induction xs) auto

lemma revise_loop_subseq:
  "revise_loop self assignment i j k di revised = Inr (di', r) \<Longrightarrow> subseq di' di"
proof (induction self assignment i j k di revised rule: revise_loop.induct)
  case (1 self assignment i j k di revised)
  show ?case
  proof (cases "k < length di")
    case False
    with "1.prems" show ?thesis by (simp add: revise_loop.simps[of _ _ _ _ k di])
  next
    case True
    then obtain dj where dj: "(if j = i then Some di else map_of assignment j) = Some dj"
      using "1.prems"
      by (auto simp: revise_loop.simps[of _ _ _ _ k di] split: option.splits if_splits)
    then obtain found where f: "any_support self i j (di ! k) dj = Inr found"
      using "1.prems" True
      by (auto simp: revise_loop.simps[of _ _ _ _ k di]
               split: option.splits sum.splits if_splits)
    show ?thesis
    proof (cases found)
      case True
      with \<open>k < length di\<close> dj f "1.prems"
      have "revise_loop self assignment i j (Suc k) di revised = Inr (di', r)"
        by (auto simp: revise_loop.simps[of _ _ _ _ k di] split: if_splits)
      from "1.IH"(2)[OF \<open>k < length di\<close> dj f _ this] True show ?thesis by simp
    next
      case False
      with \<open>k < length di\<close> dj f "1.prems"
      have "revise_loop self assignment i j (Suc k) (remove1 (di ! k) di) True = Inr (di', r)"
        by (auto simp: revise_loop.simps[of _ _ _ _ k di] split: if_splits)
      from "1.IH"(1)[OF \<open>k < length di\<close> dj f _ this] False
      have "subseq di' (remove1 (di ! k) di)" by simp
      then show ?thesis using subseq_remove1 by (rule subseq_order.trans)
    qed
  qed
qed

lemma revise_narrows:
  assumes "revise self assignment i j = Inr (assignment', r)"
  shows "narrows assignment' assignment"
proof -
  from assms obtain di di' where di: "map_of assignment i = Some di"
    and l: "revise_loop self assignment i j 0 di False = Inr (di', r)"
    and a: "assignment' = AList.update i di' assignment"
    by (auto simp: revise_def split: option.splits sum.splits)
  from narrows_update[OF di revise_loop_subseq[OF l]] a show ?thesis by simp
qed

lemma inference_loop_narrows:
  "inference_loop pop self assignment queue_set = Inr (assignment', c) \<Longrightarrow>
   narrows assignment' assignment"
proof (induction pop self assignment queue_set rule: inference_loop.induct)
  case (1 pop self assignment queue_set)
  let ?arc = "queue_pop pop assignment queue_set"
  show ?case
  proof (cases "0 < length queue_set")
    case False
    with "1.prems" show ?thesis
      by (simp add: inference_loop.simps[of _ _ _ queue_set] narrows_refl)
  next
    case True
    with "1.prems" obtain a1 revised
      where rev: "revise self assignment (fst ?arc) (snd ?arc) = Inr (a1, revised)"
      by (auto simp: inference_loop.simps[of _ _ assignment queue_set] split: sum.splits)
    have n1: "narrows a1 assignment" by (rule revise_narrows[OF rev])
    show ?thesis
    proof (cases revised)
      case False
      with True rev "1.prems"
      have "inference_loop pop self a1 (remove1 ?arc queue_set) = Inr (assignment', c)"
        by (simp add: inference_loop.simps[of _ _ assignment queue_set])
      from "1.IH"(2)[OF True rev refl _ this] False have "narrows assignment' a1" by simp
      then show ?thesis using n1 by (rule narrows_trans)
    next
      case r: True
      with True rev "1.prems" obtain d where d: "map_of a1 (fst ?arc) = Some d"
        by (auto simp: inference_loop.simps[of _ _ assignment queue_set] split: option.splits)
      show ?thesis
      proof (cases "length d = 0")
        case True
        with \<open>0 < length queue_set\<close> rev r d "1.prems" have "assignment' = a1"
          by (simp add: inference_loop.simps[of _ _ assignment queue_set])
        with n1 show ?thesis by simp
      next
        case False
        with \<open>0 < length queue_set\<close> rev r d "1.prems" obtain ns
          where ns: "get_all_neighboring_arcs self (fst ?arc) = Inr ns"
          by (auto simp: inference_loop.simps[of _ _ assignment queue_set] split: sum.splits)
        with False \<open>0 < length queue_set\<close> rev r d "1.prems"
        have "inference_loop pop self a1 (foldl queue_add (remove1 ?arc queue_set) ns) =
              Inr (assignment', c)"
          by (simp add: inference_loop.simps[of _ _ assignment queue_set])
        from "1.IH"(1)[OF \<open>0 < length queue_set\<close> rev refl _ d False ns this] r
        have "narrows assignment' a1" by simp
        then show ?thesis using n1 by (rule narrows_trans)
      qed
    qed
  qed
qed

lemma inference_narrows:
  "inference pop self assignment queue = Inr (assignment', c) \<Longrightarrow>
   narrows assignment' assignment"
  unfolding inference_def by (rule inference_loop_narrows)

lemma backtrack_loop_narrows:
  assumes rec: "\<And>s a s' r. rec s a = Inr (s', Solution r) \<Longrightarrow> narrows r a"
    and var: "map_of assignment var = Some d"
    and vals: "set vals \<subseteq> set d"
    and run: "backtrack_loop rec pop self assignment var vals = Inr (self', Solution found)"
  shows "narrows found assignment"
  using vals run
proof (induction vals arbitrary: self)
  case Nil
  then show ?case by simp
next
  case (Cons val rest)
  from Cons.prems(2) obtain ns where ns: "get_all_neighboring_arcs self var = Inr ns"
    by (auto split: sum.splits)
  with Cons.prems(2) obtain a1 c
    where inf: "inference pop self (AList.update var [val] assignment) ns = Inr (a1, c)"
    by (auto split: sum.splits)
  from Cons.prems(1) have "subseq [val] d" by (simp add: subseq_singleton_left)
  from narrows_trans[OF inference_narrows[OF inf] narrows_update[OF var this]]
  have n1: "narrows a1 assignment" .
  from Cons.prems(1) have rest: "set rest \<subseteq> set d" by simp
  show ?case
  proof (cases c)
    case False
    with ns inf Cons.prems(2)
    have "backtrack_loop rec pop self assignment var rest = Inr (self', Solution found)"
      by simp
    from Cons.IH[OF rest this] show ?thesis .
  next
    case True
    with ns inf Cons.prems(2) obtain s1 r1 where r1: "rec self a1 = Inr (s1, r1)"
      by (auto split: sum.splits)
    show ?thesis
    proof (cases "truthy r1")
      case t: True
      with True ns inf r1 Cons.prems(2) have "r1 = Solution found" by simp
      with r1 have "narrows found a1" by (auto dest: rec)
      then show ?thesis using n1 by (rule narrows_trans)
    next
      case False
      with True ns inf r1 Cons.prems(2)
      have "backtrack_loop rec pop s1 assignment var rest = Inr (self', Solution found)"
        by simp
      from Cons.IH[OF rest this] show ?thesis .
    qed
  qed
qed

lemma backtrack_narrows:
  "backtrack depth pop self assignment = Inr (self', Solution found) \<Longrightarrow>
   narrows found assignment"
proof (induction depth arbitrary: self assignment self' found)
  case 0
  then show ?case by simp
next
  case (Suc depth)
  show ?case
  proof (cases "assignment_is_done assignment")
    case True
    with Suc.prems show ?thesis by (simp add: narrows_refl)
  next
    case False
    with Suc.prems obtain var where var: "select_unassigned_variable assignment = Inr var"
      by (auto split: sum.splits)
    with False Suc.prems obtain vals where vals: "order_domain_values var assignment = Inr vals"
      by (auto split: sum.splits)
    then have d: "map_of assignment var = Some vals"
      by (auto simp: order_domain_values_def split: option.splits)
    from False var vals Suc.prems
    have "backtrack_loop (backtrack depth pop) pop
            (self\<lparr>backtrack_called := backtrack_called self + 1\<rparr>) assignment var vals =
          Inr (self', Solution found)"
      by simp
    from backtrack_loop_narrows[OF Suc.IH d subset_refl this] show ?thesis .
  qed
qed

lemma backtracking_search_narrows:
  assumes "backtracking_search depth pop self = Inr (self', Solution found)"
  shows "narrows found (domains self)"
proof -
  from assms obtain a c
    where inf: "inference pop self (domains self) (get_all_arcs self) = Inr (a, c)"
      and bt: "backtrack depth pop self a = Inr (self', Solution found)"
    by (auto simp: backtracking_search_def split: sum.splits)
  from narrows_trans[OF backtrack_narrows[OF bt] inference_narrows[OF inf]] show ?thesis .
qed

lemma registered_iff_arc:
  assumes "distinct (map fst (constraints self))"
  shows "registered self i j \<longleftrightarrow> (i, j) \<in> set (get_all_arcs self)"
proof -
  have "(i, j) \<in> set (get_all_arcs self) \<longleftrightarrow>
        (\<exists>row. (i, row) \<in> set (constraints self) \<and> j \<in> fst ` set row)"
    by (force simp: get_all_arcs_def)
  also have "\<dots> \<longleftrightarrow> (\<exists>row. map_of (constraints self) i = Some row \<and> j \<in> fst ` set row)"
    using assms by auto
  also have "\<dots> \<longleftrightarrow> registered self i j"
  proof (cases "map_of (constraints self) i")
    case None
    then show ?thesis by (simp add: registered_def relation_def)
  next
    case (Some row)
    have "j \<in> fst ` set row \<longleftrightarrow> map_of row j \<noteq> None"
      by (simp add: map_of_eq_None_iff)
    with Some show ?thesis by (simp add: registered_def relation_def)
  qed
  finally show ?thesis ..
qed

lemma well_formed_store_cong:
  "constraints s' = constraints s \<Longrightarrow> well_formed s' a = well_formed s a"
  by (simp add: well_formed_def get_all_arcs_def)

lemma well_formed_narrows: "narrows a' a \<Longrightarrow> well_formed self a \<Longrightarrow> well_formed self a'"
  by (drule narrows_keys) (simp add: well_formed_def)

lemma update_present_keys:
  "map_of a var = Some d \<Longrightarrow> map fst (AList.update var d' a) = map fst a"
  by (induction a) auto

lemma well_formed_update:
  "map_of a var = Some d \<Longrightarrow> well_formed self a \<Longrightarrow> well_formed self (AList.update var d' a)"
  by (drule update_present_keys[where d' = d']) (simp add: well_formed_def)

lemma well_formed_arc:
  "well_formed self a \<Longrightarrow> arc \<in> set (get_all_arcs self) \<Longrightarrow>
   fst arc \<in> set (map fst a) \<and> snd arc \<in> set (map fst a) \<and>
   fst arc \<in> set (map fst (constraints self)) \<and> (snd arc, fst arc) \<in> set (get_all_arcs self)"
  by (cases arc) (auto simp: well_formed_def)

lemma neighbors_are_arcs:
  assumes wf: "well_formed self a" and ns: "get_all_neighboring_arcs self v = Inr ns"
  shows "set ns \<subseteq> set (get_all_arcs self)"
proof
  fix arc assume "arc \<in> set ns"
  from ns obtain row where row: "map_of (constraints self) v = Some row"
    and ns_eq: "ns = map (\<lambda>(i, rel). (i, v)) row"
    by (auto simp: get_all_neighboring_arcs_def split: option.splits)
  from \<open>arc \<in> set ns\<close> ns_eq obtain k rel where k: "(k, rel) \<in> set row" and arc: "arc = (k, v)"
    by auto
  from row have "(v, row) \<in> set (constraints self)" by (rule map_of_SomeD)
  with k have "(v, k) \<in> set (get_all_arcs self)" by (force simp: get_all_arcs_def)
  with wf have "(k, v) \<in> set (get_all_arcs self)" by (auto simp: well_formed_def)
  with arc show "arc \<in> set (get_all_arcs self)" by simp
qed

lemma any_support_ok:
  "relation self i j \<noteq> None \<Longrightarrow> \<exists>b. any_support self i j x dj = Inr b"
  by (induction dj) auto

lemma revise_loop_ok:
  assumes "relation self i j \<noteq> None" and "j = i \<or> map_of assignment j \<noteq> None"
  shows "\<exists>r. revise_loop self assignment i j k di revised = Inr r"
  using assms
proof (induction self assignment i j k di revised rule: revise_loop.induct)
  case (1 self assignment i j k di revised)
  show ?case
  proof (cases "k < length di")
    case False
    then show ?thesis by (simp add: revise_loop.simps[of _ _ _ _ k di])
  next
    case True
    from "1.prems"(2) obtain dj
      where dj: "(if j = i then Some di else map_of assignment j) = Some dj"
      by (cases "j = i") auto
    from any_support_ok[OF "1.prems"(1)] obtain found
      where f: "any_support self i j (di ! k) dj = Inr found"
      by blast
    show ?thesis
    proof (cases found)
      case t: True
      from "1.IH"(2)[OF True dj f _ "1.prems"] t
      obtain r where "revise_loop self assignment i j (Suc k) di revised = Inr r" by auto
      with True dj f t show ?thesis
        by (auto simp: revise_loop.simps[of _ _ _ _ k di])
    next
      case False
      from "1.IH"(1)[OF True dj f _ "1.prems"] False
      obtain r where "revise_loop self assignment i j (Suc k) (remove1 (di ! k) di) True = Inr r"
        by auto
      with True dj f False show ?thesis
        by (auto simp: revise_loop.simps[of _ _ _ _ k di])
    qed
  qed
qed

lemma key_has_value: "v \<in> set (map fst a) \<Longrightarrow> \<exists>d. map_of a v = Some d"
  by (metis list.set_map map_of_eq_None_iff not_Some_eq)

lemma revise_ok:
  assumes wf: "well_formed self a" and arc: "(i, j) \<in> set (get_all_arcs self)"
  shows "\<exists>a' r. revise self a i j = Inr (a', r)"
proof -
  from wf arc have i: "i \<in> set (map fst a)" and j: "j \<in> set (map fst a)"
    by (auto simp: well_formed_def)
  from wf arc have "registered self i j"
    by (simp add: registered_iff_arc well_formed_def)
  then have rel: "relation self i j \<noteq> None" by (simp add: registered_def)
  from key_has_value[OF i] obtain di where di: "map_of a i = Some di" by blast
  from key_has_value[OF j] have "j = i \<or> map_of a j \<noteq> None" by auto
  from revise_loop_ok[OF rel this, of 0 di False] di show ?thesis
    by (auto simp: revise_def)
qed

lemma set_foldl_queue_add: "set (foldl queue_add q ns) = set q \<union> set ns"
  by (induction ns arbitrary: q) (auto simp: queue_add_def)

lemma inference_loop_ok:
  assumes "well_formed self assignment" and "set queue_set \<subseteq> set (get_all_arcs self)"
  shows "\<exists>a' c. inference_loop pop self assignment queue_set = Inr (a', c)"
  using assms
proof (induction pop self assignment queue_set rule: inference_loop.induct)
  case (1 pop self assignment queue_set)
  let ?arc = "queue_pop pop assignment queue_set"
  show ?case
  proof (cases "0 < length queue_set")
    case False
    then show ?thesis by (subst inference_loop.simps) auto
  next
    case True
    then have mem: "?arc \<in> set queue_set" by (simp add: queue_pop_member)
    with "1.prems"(2) have arc': "?arc \<in> set (get_all_arcs self)" by auto
    then have arc: "(fst ?arc, snd ?arc) \<in> set (get_all_arcs self)" by simp
    from revise_ok[OF "1.prems"(1) arc] obtain a1 revised
      where rev: "revise self assignment (fst ?arc) (snd ?arc) = Inr (a1, revised)"
      by blast
    have wf1: "well_formed self a1"
      using revise_narrows[OF rev] "1.prems"(1) by (rule well_formed_narrows)
    have sub1: "set (remove1 ?arc queue_set) \<subseteq> set (get_all_arcs self)"
      using "1.prems"(2) set_remove1_subset[of ?arc queue_set] by blast
    show ?thesis
    proof (cases revised)
      case False
      from "1.IH"(2)[OF True rev refl _ wf1 sub1] False
      obtain a' c where "inference_loop pop self a1 (remove1 ?arc queue_set) = Inr (a', c)"
        by auto
      with True rev False show ?thesis
        by (auto simp: inference_loop.simps[of _ _ assignment queue_set])
    next
      case r: True
      from well_formed_arc[OF wf1 arc'] have "fst ?arc \<in> set (map fst a1)" by simp
      from key_has_value[OF this] obtain d where d: "map_of a1 (fst ?arc) = Some d" by blast
      show ?thesis
      proof (cases "length d = 0")
        case True
        with \<open>0 < length queue_set\<close> rev r d show ?thesis
          by (auto simp: inference_loop.simps[of _ _ assignment queue_set])
      next
        case False
        from well_formed_arc[OF "1.prems"(1) arc']
        have "fst ?arc \<in> set (map fst (constraints self))" by simp
        from key_has_value[OF this] obtain ns
          where ns: "get_all_neighboring_arcs self (fst ?arc) = Inr ns"
          by (auto simp: get_all_neighboring_arcs_def)
        from neighbors_are_arcs[OF "1.prems"(1) ns] sub1
        have sub2: "set (foldl queue_add (remove1 ?arc queue_set) ns) \<subseteq> set (get_all_arcs self)"
          by (simp add: set_foldl_queue_add)
        from "1.IH"(1)[OF \<open>0 < length queue_set\<close> rev refl _ d False ns wf1 sub2] r
        obtain a' c
          where "inference_loop pop self a1 (foldl queue_add (remove1 ?arc queue_set) ns) =
                 Inr (a', c)"
          by auto
        with \<open>0 < length queue_set\<close> rev r d False ns show ?thesis
          by (auto simp: inference_loop.simps[of _ _ assignment queue_set])
      qed
    qed
  qed
qed

lemma inference_ok:
  assumes "well_formed self assignment" and "set queue \<subseteq> set (get_all_arcs self)"
  shows "\<exists>a' c. inference pop self assignment queue = Inr (a', c)"
  unfolding inference_def using assms by (intro inference_loop_ok) auto

lemma select_some:
  "\<not> assignment_is_done assignment \<Longrightarrow> \<exists>var. select_unassigned_variable assignment = Inr var"
proof -
  assume "\<not> assignment_is_done assignment"
  then have "filter (\<lambda>item. length (snd item) > 1) assignment \<noteq> []"
    by (fastforce simp: assignment_is_done_iff filter_empty_conv)
  then show ?thesis
    by (cases "filter (\<lambda>item. length (snd item) > 1) assignment")
       (auto simp: select_unassigned_variable_def)
qed

lemma select_undecided:
  assumes d: "distinct (map fst assignment)"
    and sel: "select_unassigned_variable assignment = Inr var"
  shows "\<exists>d. map_of assignment var = Some d \<and> length d > 1"
proof -
  let ?und = "filter (\<lambda>item. length (snd item) > 1) assignment"
  from sel obtain item rest where und: "?und = item # rest"
    by (cases ?und) (auto simp: select_unassigned_variable_def)
  let ?m = "min_by (\<lambda>item. length (snd item)) item rest"
  from sel und have var: "var = fst ?m"
    by (simp add: select_unassigned_variable_def)
  from min_by_least[of "\<lambda>item. length (snd item)" item rest]
  have mem: "?m \<in> set ?und" using und by simp
  then have in_asg: "?m \<in> set assignment" and big: "length (snd ?m) > 1" by auto
  from in_asg d have "map_of assignment (fst ?m) = Some (snd ?m)"
    by (metis map_of_is_SomeI prod.collapse)
  with var big show ?thesis by simp
qed

lemma undecided_fix:
  "distinct (map fst a) \<Longrightarrow> map_of a var = Some d \<Longrightarrow> length d > 1 \<Longrightarrow>
   undecided (AList.update var [val] a) < undecided a"
proof (induction a)
  case Nil
  then show ?case by simp
next
  case (Cons p a)
  show ?case
  proof (cases "fst p = var")
    case True
    with Cons.prems show ?thesis by (cases p) (auto simp: undecided_def)
  next
    case False
    with Cons show ?thesis by (cases p) (auto simp: undecided_def)
  qed
qed

lemma undecided_le_length: "undecided a \<le> length a"
  by (simp add: undecided_def)

lemma child_undecided:
  assumes d: "distinct (map fst a)" and var: "map_of a var = Some dv" and big: "length dv > 1"
    and inf: "inference pop self (AList.update var [val] a) ns = Inr (a1, c)"
  shows "undecided a1 < undecided a"
  using narrows_undecided[OF inference_narrows[OF inf]] undecided_fix[OF d var big, of val]
  by simp

lemma child_keys:
  assumes var: "map_of a var = Some dv"
    and inf: "inference pop self (AList.update var [val] a) ns = Inr (a1, c)"
  shows "map fst a1 = map fst a"
  using narrows_keys[OF inference_narrows[OF inf]] update_present_keys[OF var, of "[val]"]
  by simp

lemma keeps_storeE:
  assumes "keeps_store self out"
  obtains s' r where "out = Inr (s', r)" and "constraints s' = constraints self"
  using assms by (cases out) (auto simp: keeps_store_def)

lemma backtrack_loop_ok:
  assumes rec: "\<And>s a1. well_formed s a1 \<Longrightarrow> undecided a1 < undecided assignment \<Longrightarrow>
                  keeps_store s (rec s a1)"
    and wf: "well_formed self assignment"
    and var: "map_of assignment var = Some d" and big: "length d > 1"
  shows "keeps_store self (backtrack_loop rec pop self assignment var vals)"
  using wf
proof (induction vals arbitrary: self)
  case Nil
  show ?case by (simp add: keeps_store_def)
next
  case (Cons val rest)
  from Cons.prems have dist: "distinct (map fst assignment)" by (simp add: well_formed_def)
  from var have "var \<in> set (map fst assignment)"
    by (force dest: map_of_SomeD)
  with Cons.prems have "var \<in> set (map fst (constraints self))"
    by (auto simp: well_formed_def)
  from key_has_value[OF this] obtain ns where ns: "get_all_neighboring_arcs self var = Inr ns"
    by (auto simp: get_all_neighboring_arcs_def)
  have wfu: "well_formed self (AList.update var [val] assignment)"
    using var Cons.prems by (rule well_formed_update)
  from inference_ok[OF wfu neighbors_are_arcs[OF Cons.prems ns]] obtain a1 c
    where inf: "inference pop self (AList.update var [val] assignment) ns = Inr (a1, c)"
    by blast
  show ?case
  proof (cases c)
    case False
    with ns inf Cons.IH[OF Cons.prems] show ?thesis by simp
  next
    case True
    have wf1: "well_formed self a1"
      using inference_narrows[OF inf] wfu by (rule well_formed_narrows)
    from rec[OF wf1 child_undecided[OF dist var big inf]] obtain s1 r1
      where r1: "rec self a1 = Inr (s1, r1)" and c1: "constraints s1 = constraints self"
      by (rule keeps_storeE)
    show ?thesis
    proof (cases "truthy r1")
      case t: True
      with True ns inf r1 c1 show ?thesis by (simp add: keeps_store_def)
    next
      case False
      from Cons.prems well_formed_store_cong[OF c1, of assignment]
      have "well_formed s1 assignment" by simp
      from Cons.IH[OF this] c1 have "keeps_store self (backtrack_loop rec pop s1 assignment var rest)"
        by (auto simp: keeps_store_def split: sum.splits)
      with True False ns inf r1 show ?thesis by simp
    qed
  qed
qed

lemma backtrack_ok:
  "well_formed self assignment \<Longrightarrow> undecided assignment < depth \<Longrightarrow>
   keeps_store self (backtrack depth pop self assignment)"
proof (induction depth arbitrary: self assignment)
  case 0
  then show ?case by simp
next
  case (Suc depth)
  show ?case
  proof (cases "assignment_is_done assignment")
    case True
    then show ?thesis by (simp add: keeps_store_def)
  next
    case False
    from select_some[OF False] obtain var
      where sel: "select_unassigned_variable assignment = Inr var" by blast
    from Suc.prems(1) have dist: "distinct (map fst assignment)" by (simp add: well_formed_def)
    from select_undecided[OF dist sel] obtain d
      where d: "map_of assignment var = Some d" and big: "length d > 1" by blast
    then have ord: "order_domain_values var assignment = Inr d"
      by (simp add: order_domain_values_def)
    let ?self = "self\<lparr>backtrack_called := backtrack_called self + 1\<rparr>"
    have wf: "well_formed ?self assignment"
      using Suc.prems(1) well_formed_store_cong[of ?self self assignment] by simp
    have rec: "keeps_store s (backtrack depth pop s a1)"
      if "well_formed s a1" and "undecided a1 < undecided assignment" for s a1
      using that Suc.prems(2) by (intro Suc.IH) auto
    from backtrack_loop_ok[of assignment "backtrack depth pop", OF rec wf d big, of pop d]
    have "keeps_store self (backtrack_loop (backtrack depth pop) pop ?self assignment var d)"
      by (auto simp: keeps_store_def split: sum.splits)
    with False sel ord show ?thesis by simp
  qed
qed

lemma backtrack_loop_restrict:
  assumes dist: "distinct (map fst assignment)"
    and var: "map_of assignment var = Some d" and big: "length d > 1"
  shows "backtrack_loop rec pop self assignment var vals =
         backtrack_loop
           (\<lambda>s a. if undecided a < undecided assignment then rec s a else Inl RecursionError)
           pop self assignment var vals"
proof (induction vals arbitrary: self)
  case Nil
  show ?case by simp
next
  case (Cons val rest)
  show ?case
  proof (cases "get_all_neighboring_arcs self var")
    case (Inl e)
    then show ?thesis by simp
  next
    case (Inr ns)
    show ?thesis
    proof (cases "inference pop self (AList.update var [val] assignment) ns")
      case (Inl e)
      with Inr show ?thesis by simp
    next
      case inf: (Inr res)
      obtain a1 c where res: "res = (a1, c)" by (cases res)
      from inf res child_undecided[OF dist var big, of pop self val ns a1 c]
      have less: "undecided a1 < undecided assignment" by simp
      show ?thesis
      proof (cases c)
        case False
        with Inr inf res show ?thesis by (simp add: Cons.IH)
      next
        case True
        show ?thesis
        proof (cases "rec self a1")
          case (Inl e)
          with True Inr inf res less show ?thesis by simp
        next
          case r: (Inr out)
          obtain s1 r1 where out: "out = (s1, r1)" by (cases out)
          from True Inr inf res less r out show ?thesis by (simp add: Cons.IH)
        qed
      qed
    qed
  qed
qed

lemma any_support_error: "any_support self i j x dj = Inl e \<Longrightarrow> e = KeyError"
  by (induction dj) (auto split: option.splits if_splits)

lemma revise_loop_error:
  "revise_loop self assignment i j k di revised = Inl e \<Longrightarrow> e = KeyError"
proof (induction self assignment i j k di revised rule: revise_loop.induct)
  case (1 self assignment i j k di revised)
  show ?case
  proof (cases "k < length di")
    case False
    with "1.prems" show ?thesis by (simp add: revise_loop.simps[of _ _ _ _ k di])
  next
    case True
    show ?thesis
    proof (cases "if j = i then Some di else map_of assignment j")
      case None
      with True "1.prems" show ?thesis
        by (simp add: revise_loop.simps[of _ _ _ _ k di] split: if_splits)
    next
      case (Some dj)
      show ?thesis
      proof (cases "any_support self i j (di ! k) dj")
        case (Inl e')
        with True Some "1.prems" any_support_error[OF Inl] show ?thesis
          by (simp add: revise_loop.simps[of _ _ _ _ k di] split: if_splits)
      next
        case (Inr found)
        show ?thesis
        proof (cases found)
          case t: True
          with True Some Inr "1.prems"
          have "revise_loop self assignment i j (Suc k) di revised = Inl e"
            by (simp add: revise_loop.simps[of _ _ _ _ k di] split: if_splits)
          from "1.IH"(2)[OF True Some Inr _ this] t show ?thesis by simp
        next
          case False
          with True Some Inr "1.prems"
          have "revise_loop self assignment i j (Suc k) (remove1 (di ! k) di) True = Inl e"
            by (simp add: revise_loop.simps[of _ _ _ _ k di] split: if_splits)
          from "1.IH"(1)[OF True Some Inr _ this] False show ?thesis by simp
        qed
      qed
    qed
  qed
qed

lemma revise_error: "revise self assignment i j = Inl e \<Longrightarrow> e = KeyError"
  by (auto simp: revise_def split: option.splits sum.splits dest: revise_loop_error)

lemma neighboring_arcs_error: "get_all_neighboring_arcs self v = Inl e \<Longrightarrow> e = KeyError"
  by (auto simp: get_all_neighboring_arcs_def split: option.splits)

lemma inference_loop_error:
  "inference_loop pop self assignment queue_set = Inl e \<Longrightarrow> e = KeyError"
proof (induction pop self assignment queue_set rule: inference_loop.induct)
  case (1 pop self assignment queue_set)
  let ?arc = "queue_pop pop assignment queue_set"
  show ?case
  proof (cases "0 < length queue_set")
    case False
    with "1.prems" show ?thesis by (simp add: inference_loop.simps[of _ _ _ queue_set])
  next
    case True
    show ?thesis
    proof (cases "revise self assignment (fst ?arc) (snd ?arc)")
      case (Inl e')
      with True "1.prems" revise_error[OF Inl] show ?thesis
        by (simp add: inference_loop.simps[of _ _ assignment queue_set])
    next
      case (Inr res)
      obtain a1 revised where res: "res = (a1, revised)" by (cases res)
      note rev = Inr[unfolded res]
      show ?thesis
      proof (cases revised)
        case False
        with True rev "1.prems"
        have "inference_loop pop self a1 (remove1 ?arc queue_set) = Inl e"
          by (simp add: inference_loop.simps[of _ _ assignment queue_set])
        from "1.IH"(2)[OF True rev refl _ this] False show ?thesis by simp
      next
        case r: True
        show ?thesis
        proof (cases "map_of a1 (fst ?arc)")
          case None
          with True rev r "1.prems" show ?thesis
            by (simp add: inference_loop.simps[of _ _ assignment queue_set])
        next
          case (Some d)
          show ?thesis
          proof (cases "length d = 0")
            case True
            with \<open>0 < length queue_set\<close> rev r Some "1.prems" show ?thesis
              by (simp add: inference_loop.simps[of _ _ assignment queue_set])
          next
            case False
            show ?thesis
            proof (cases "get_all_neighboring_arcs self (fst ?arc)")
              case (Inl e')
              with False \<open>0 < length queue_set\<close> rev r Some "1.prems"
                neighboring_arcs_error[OF Inl]
              show ?thesis
                by (simp add: inference_loop.simps[of _ _ assignment queue_set])
            next
              case ns: (Inr ns)
              with False \<open>0 < length queue_set\<close> rev r Some "1.prems"
              have "inference_loop pop self a1 (foldl queue_add (remove1 ?arc queue_set) ns) =
                    Inl e"
                by (simp add: inference_loop.simps[of _ _ assignment queue_set])
              from "1.IH"(1)[OF \<open>0 < length queue_set\<close> rev refl _ Some False ns this] r
              show ?thesis by simp
            qed
          qed
        qed
      qed
    qed
  qed
qed

lemma inference_error: "inference pop self assignment queue = Inl e \<Longrightarrow> e = KeyError"
  unfolding inference_def by (rule inference_loop_error)

lemma backtrack_loop_depth:
  assumes rec: "\<And>s a1. undecided a1 < undecided assignment \<Longrightarrow> distinct (map fst a1) \<Longrightarrow>
                  rec s a1 \<noteq> Inl RecursionError"
    and dist: "distinct (map fst assignment)"
    and var: "map_of assignment var = Some d" and big: "length d > 1"
  shows "backtrack_loop rec pop self assignment var vals \<noteq> Inl RecursionError"
proof (induction vals arbitrary: self)
  case Nil
  show ?case by simp
next
  case (Cons val rest)
  show ?case
  proof (cases "get_all_neighboring_arcs self var")
    case (Inl e)
    with neighboring_arcs_error[OF Inl] show ?thesis by simp
  next
    case (Inr ns)
    show ?thesis
    proof (cases "inference pop self (AList.update var [val] assignment) ns")
      case (Inl e)
      with Inr inference_error[OF Inl] show ?thesis by simp
    next
      case inf: (Inr res)
      obtain a1 c where res: "res = (a1, c)" by (cases res)
      from inf res child_undecided[OF dist var big, of pop self val ns a1 c]
      have less: "undecided a1 < undecided assignment" by simp
      from inf res child_keys[OF var, of pop self val ns a1 c] dist
      have "distinct (map fst a1)" by simp
      from rec[OF less this, of self] have ok: "rec self a1 \<noteq> Inl RecursionError" .
      show ?thesis
      proof (cases c)
        case False
        with Inr inf res show ?thesis by (simp add: Cons.IH)
      next
        case True
        show ?thesis
        proof (cases "rec self a1")
          case (Inl e)
          with True Inr inf res ok show ?thesis by simp
        next
          case r: (Inr out)
          obtain s1 r1 where out: "out = (s1, r1)" by (cases out)
          from True Inr inf res r out show ?thesis by (simp add: Cons.IH)
        qed
      qed
    qed
  qed
qed

lemma backtrack_depth:
  "distinct (map fst assignment) \<Longrightarrow> undecided assignment < depth \<Longrightarrow>
   backtrack depth pop self assignment \<noteq> Inl RecursionError"
proof (induction depth arbitrary: self assignment)
  case 0
  then show ?case by simp
next
  case (Suc depth)
  show ?case
  proof (cases "assignment_is_done assignment")
    case True
    then show ?thesis by simp
  next
    case False
    from select_some[OF False] obtain var
      where sel: "select_unassigned_variable assignment = Inr var" by blast
    from select_undecided[OF Suc.prems(1) sel] obtain d
      where d: "map_of assignment var = Some d" and big: "length d > 1" by blast
    then have ord: "order_domain_values var assignment = Inr d"
      by (simp add: order_domain_values_def)
    have rec: "backtrack depth pop s a1 \<noteq> Inl RecursionError"
      if "undecided a1 < undecided assignment" and "distinct (map fst a1)" for s a1
      using that Suc.prems(2) by (intro Suc.IH) auto
    from backtrack_loop_depth[of assignment "backtrack depth pop", OF rec Suc.prems(1) d big]
    have "backtrack_loop (backtrack depth pop) pop
            (self\<lparr>backtrack_called := backtrack_called self + 1\<rparr>) assignment var d \<noteq>
          Inl RecursionError" .
    with False sel ord show ?thesis by simp
  qed
qed

lemma choice_narrows:
  "order_domain_values var a = Inr vals \<Longrightarrow> val \<in> set vals \<Longrightarrow>
   narrows (AList.update var [val] a) a"
  by (auto simp: order_domain_values_def subseq_singleton_left split: option.splits
           intro: narrows_update)

lemma reachable_narrows: "reachable self a \<Longrightarrow> narrows a (domains self)"
proof (induction rule: reachable.induct)
  case clone
  show ?case by (rule narrows_refl)
next
  case (by_revise a s i j a' r)
  from revise_narrows[OF by_revise.hyps(2)] by_revise.IH show ?case by (rule narrows_trans)
next
  case (by_inference a pop s queue a' c)
  from inference_narrows[OF by_inference.hyps(2)] by_inference.IH show ?case
    by (rule narrows_trans)
next
  case (by_choice a var vals val)
  from choice_narrows[OF by_choice.hyps(2,3)] by_choice.IH show ?case by (rule narrows_trans)
next
  case (by_backtrack a depth pop s s' a')
  from backtrack_narrows[OF by_backtrack.hyps(2)] by_backtrack.IH show ?case
    by (rule narrows_trans)
qed

lemma subseq_set: "subseq xs ys \<Longrightarrow> set xs \<subseteq> set ys"
  by (induction rule: list_emb.induct) auto

lemma narrows_domains:
  assumes "narrows a' a"
  shows "map fst a' = map fst a \<and>
         (\<forall>v d'. map_of a' v = Some d' \<longrightarrow>
            (\<exists>d. map_of a v = Some d \<and> subseq d' d \<and> set d' \<subseteq> set d \<and> length d' \<le> length d))"
proof -
  have "\<exists>d. map_of a v = Some d \<and> subseq d' d \<and> set d' \<subseteq> set d \<and> length d' \<le> length d"
    if "map_of a' v = Some d'" for v d'
  proof -
    from narrows_map_of[OF assms that] obtain d where "map_of a v = Some d" "subseq d' d"
      by blast
    then show ?thesis by (auto dest: subseq_set list_emb_length)
  qed
  with narrows_keys[OF assms] show ?thesis by blast
qed

section \<open>The claims\<close>

text \<open>
  C1. The specification says that \<^verbatim>\<open>backtracking_search\<close> returns the no-solution
  value without calling \<^verbatim>\<open>backtrack\<close> when the preprocessing pass of
  \<^verbatim>\<open>inference\<close> fails, so that a row with two identical digits gives a clean
  no-solution value. The program discards the result of that pass. On the row
  \<open>A = [5]\<close>, \<open>B = [5]\<close> with an all-different constraint, for every order of popping
  and every recursion allowance of at least one: the pass returns \<^verbatim>\<open>False\<close>,
  \<^verbatim>\<open>backtrack\<close> is called once all the same, and the value returned is an assignment
  in which one domain is the empty list.
\<close>

theorem preprocessing_result_ignored:
  "\<exists>assignment.
     inference pop contradictory_row (domains contradictory_row)
       (get_all_arcs contradictory_row) = Inr (assignment, False) \<and>
     backtracking_search (Suc depth) pop contradictory_row =
       Inr (contradictory_row\<lparr>backtrack_called := 1\<rparr>, Solution assignment) \<and>
     [] \<in> snd ` set assignment"
proof -
  let ?q = "[(''A'', ''B''), (''B'', ''A'')]"
  let ?a = "[(''A'', [5::nat]), (''B'', [5])]"
  have arcs: "get_all_arcs contradictory_row = ?q"
    by (simp add: contradictory_row_def get_all_arcs_def)
  have doms: "domains contradictory_row = ?a"
    by (simp add: contradictory_row_def)
  have called: "backtrack_called contradictory_row = 0"
    by (simp add: contradictory_row_def)
  from queue_pop_cases2[of pop ?a]
  consider "queue_pop pop ?a ?q = (''A'', ''B'')" | "queue_pop pop ?a ?q = (''B'', ''A'')"
    by blast
  then show ?thesis
  proof cases
    case 1
    then have "inference pop contradictory_row ?a ?q = Inr ([(''A'', []), (''B'', [5])], False)"
      by (simp add: inference_def inference_loop.simps[of _ _ _ ?q] revise_def
          revise_loop.simps relation_def contradictory_row_def)
    then show ?thesis
      by (simp add: backtracking_search_def arcs doms called)
  next
    case 2
    then have "inference pop contradictory_row ?a ?q = Inr ([(''A'', [5]), (''B'', [])], False)"
      by (simp add: inference_def inference_loop.simps[of _ _ _ ?q] revise_def
          revise_loop.simps relation_def contradictory_row_def)
    then show ?thesis
      by (simp add: backtracking_search_def arcs doms called)
  qed
qed

text \<open>
  C2. The specification says that whenever \<^verbatim>\<open>backtracking_search\<close> returns an
  assignment, every registered arc between two decided variables holds a pair of the
  stored relation. On two rows that each hold a repeated digit (\<open>A = B = [5]\<close>,
  \<open>C = D = [7]\<close>, one all-different constraint per row) the preprocessing pass stops
  at the first arc it pops, with one domain emptied, and its result is discarded; the
  other row is returned untouched. For every order of popping the value returned is an
  assignment with two decided variables joined by a registered arc whose relation does
  not hold their pair.
\<close>

theorem two_rows_unsound:
  "\<exists>self' found i j x y rel.
     backtracking_search (Suc depth) pop two_contradictory_rows = Inr (self', Solution found) \<and>
     map_of found i = Some [x] \<and> map_of found j = Some [y] \<and>
     relation two_contradictory_rows i j = Some rel \<and> (x, y) \<notin> set rel"
proof -
  let ?q = "[(''A'', ''B''), (''B'', ''A''), (''C'', ''D''), (''D'', ''C'')]"
  let ?a = "[(''A'', [5::nat]), (''B'', [5]), (''C'', [7]), (''D'', [7])]"
  have arcs: "get_all_arcs two_contradictory_rows = ?q"
    by (simp add: two_contradictory_rows_def get_all_arcs_def)
  have doms: "domains two_contradictory_rows = ?a"
    by (simp add: two_contradictory_rows_def)
  have rel_ab: "relation two_contradictory_rows ''A'' ''B'' = Some []"
    and rel_cd: "relation two_contradictory_rows ''C'' ''D'' = Some []"
    by (simp_all add: two_contradictory_rows_def relation_def)
  from queue_pop_cases4[of pop ?a]
  consider "queue_pop pop ?a ?q = (''A'', ''B'')" | "queue_pop pop ?a ?q = (''B'', ''A'')"
    | "queue_pop pop ?a ?q = (''C'', ''D'')" | "queue_pop pop ?a ?q = (''D'', ''C'')"
    by blast
  then show ?thesis
  proof cases
    case 1
    then have "inference pop two_contradictory_rows ?a ?q =
        Inr ([(''A'', []), (''B'', [5]), (''C'', [7]), (''D'', [7])], False)"
      by (simp add: inference_def inference_loop.simps[of _ _ _ ?q] revise_def
          revise_loop.simps relation_def two_contradictory_rows_def)
    then have "backtracking_search (Suc depth) pop two_contradictory_rows =
        Inr (two_contradictory_rows\<lparr>backtrack_called := backtrack_called two_contradictory_rows + 1\<rparr>,
             Solution [(''A'', []), (''B'', [5]), (''C'', [7]), (''D'', [7])])"
      by (simp add: backtracking_search_def arcs doms)
    moreover have "map_of [(''A'', []), (''B'', [5]), (''C'', [7]), (''D'', [7::nat])] ''C'' = Some [7]"
      "map_of [(''A'', []), (''B'', [5]), (''C'', [7]), (''D'', [7::nat])] ''D'' = Some [7]"
      by simp_all
    ultimately show ?thesis using rel_cd by (metis empty_iff empty_set)
  next
    case 2
    then have "inference pop two_contradictory_rows ?a ?q =
        Inr ([(''A'', [5]), (''B'', []), (''C'', [7]), (''D'', [7])], False)"
      by (simp add: inference_def inference_loop.simps[of _ _ _ ?q] revise_def
          revise_loop.simps relation_def two_contradictory_rows_def)
    then have "backtracking_search (Suc depth) pop two_contradictory_rows =
        Inr (two_contradictory_rows\<lparr>backtrack_called := backtrack_called two_contradictory_rows + 1\<rparr>,
             Solution [(''A'', [5]), (''B'', []), (''C'', [7]), (''D'', [7])])"
      by (simp add: backtracking_search_def arcs doms)
    moreover have "map_of [(''A'', [5]), (''B'', []), (''C'', [7]), (''D'', [7::nat])] ''C'' = Some [7]"
      "map_of [(''A'', [5]), (''B'', []), (''C'', [7]), (''D'', [7::nat])] ''D'' = Some [7]"
      by simp_all
    ultimately show ?thesis using rel_cd by (metis empty_iff empty_set)
  next
    case 3
    then have "inference pop two_contradictory_rows ?a ?q =
        Inr ([(''A'', [5]), (''B'', [5]), (''C'', []), (''D'', [7])], False)"
      by (simp add: inference_def inference_loop.simps[of _ _ _ ?q] revise_def
          revise_loop.simps relation_def two_contradictory_rows_def)
    then have "backtracking_search (Suc depth) pop two_contradictory_rows =
        Inr (two_contradictory_rows\<lparr>backtrack_called := backtrack_called two_contradictory_rows + 1\<rparr>,
             Solution [(''A'', [5]), (''B'', [5]), (''C'', []), (''D'', [7])])"
      by (simp add: backtracking_search_def arcs doms)
    moreover have "map_of [(''A'', [5]), (''B'', [5]), (''C'', []), (''D'', [7::nat])] ''A'' = Some [5]"
      "map_of [(''A'', [5]), (''B'', [5]), (''C'', []), (''D'', [7::nat])] ''B'' = Some [5]"
      by simp_all
    ultimately show ?thesis using rel_ab by (metis empty_iff empty_set)
  next
    case 4
    then have "inference pop two_contradictory_rows ?a ?q =
        Inr ([(''A'', [5]), (''B'', [5]), (''C'', [7]), (''D'', [])], False)"
      by (simp add: inference_def inference_loop.simps[of _ _ _ ?q] revise_def
          revise_loop.simps relation_def two_contradictory_rows_def)
    then have "backtracking_search (Suc depth) pop two_contradictory_rows =
        Inr (two_contradictory_rows\<lparr>backtrack_called := backtrack_called two_contradictory_rows + 1\<rparr>,
             Solution [(''A'', [5]), (''B'', [5]), (''C'', [7]), (''D'', [])])"
      by (simp add: backtracking_search_def arcs doms)
    moreover have "map_of [(''A'', [5]), (''B'', [5]), (''C'', [7]), (''D'', [])] ''A'' = Some [5::nat]"
      "map_of [(''A'', [5]), (''B'', [5]), (''C'', [7]), (''D'', [])] ''B'' = Some [5::nat]"
      by simp_all
    ultimately show ?thesis using rel_ab by (metis empty_iff empty_set)
  qed
qed

text \<open>
  C3. The specification says that after \<^verbatim>\<open>revise(assignment, i, j)\<close> no value without
  support is left in \<^verbatim>\<open>assignment[i]\<close>. The loop removes from the list it iterates
  over, so the value that follows a removed one is never examined. With \<open>A = [1, 2, 3]\<close>,
  \<open>B = [1]\<close> and the constraint \<open>A < B\<close>, no value of \<open>A\<close> has support; \<^verbatim>\<open>revise\<close>
  removes 1 and 3, returns \<^verbatim>\<open>True\<close>, and leaves 2, which has no support in \<open>B\<close>.
\<close>

theorem revise_skips_after_removal:
  "revise less_store (domains less_store) ''A'' ''B'' =
     Inr ([(''A'', [2]), (''B'', [1])], True) \<and>
   any_support less_store ''A'' ''B'' 2 [1] = Inr False"
  by (simp add: less_store_def revise_def revise_loop.simps relation_def)

text \<open>
  C4, as stated: \<^verbatim>\<open>get_all_neighboring_arcs(v)\<close> returns all and only the registered
  arcs whose target is \<open>v\<close>, also when constraints were registered in one direction
  only. With the single relation \<open>(A, B)\<close> registered, the call for \<open>B\<close> returns the
  empty list although \<open>(A, B)\<close> is a registered arc with target \<open>B\<close>.
\<close>

theorem neighboring_arcs_one_way_counterexample:
  "get_all_neighboring_arcs one_way_store ''B'' = Inr [] \<and>
   registered one_way_store ''A'' ''B'' \<and>
   (''A'', ''B'') \<in> set (get_all_arcs one_way_store)"
  by (simp add: one_way_store_def get_all_neighboring_arcs_def registered_def relation_def
      get_all_arcs_def)

text \<open>
  C4, amended: \<^verbatim>\<open>get_all_neighboring_arcs(v)\<close> returns the pairs \<open>(i, v)\<close> for
  exactly those \<open>i\<close> for which a relation is registered for the ordered pair \<open>(v, i)\<close>
  (the keys of \<^verbatim>\<open>self.constraints[v]\<close>). When every relation into or out of \<open>v\<close> is
  registered in both directions, as the program's documentation requires, these are all
  and only the registered arcs whose target is \<open>v\<close>.
\<close>

theorem neighboring_arcs_sources:
  assumes "get_all_neighboring_arcs self v = Inr arcs"
  shows "set arcs = {(i, v) | i. registered self v i} \<and>
         ((\<forall>i. registered self i v \<longleftrightarrow> registered self v i) \<longrightarrow>
            set arcs = {(i, v) | i. registered self i v})"
proof -
  from assms obtain row where row: "map_of (constraints self) v = Some row"
    and arcs: "arcs = map (\<lambda>(i, rel). (i, v)) row"
    by (auto simp: get_all_neighboring_arcs_def split: option.splits)
  have "set arcs = {(i, v) | i. i \<in> fst ` set row}"
    unfolding arcs by force
  also have "\<dots> = {(i, v) | i. registered self v i}"
    using row by (simp add: registered_def relation_def map_of_eq_None_iff)
  finally show ?thesis by simp
qed

theorem neighboring_arcs_sources_witness:
  "get_all_neighboring_arcs two_way_store ''B'' = Inr [(''A'', ''B'')] \<and>
   set [(''A'', ''B'')] = {(i, ''B'') | i. registered two_way_store ''B'' i} \<and>
   set [(''A'', ''B'')] = {(i, ''B'') | i. registered two_way_store i ''B''}"
proof -
  have call: "get_all_neighboring_arcs two_way_store ''B'' = Inr [(''A'', ''B'')]"
    by (simp add: two_way_store_def get_all_neighboring_arcs_def)
  have both: "\<forall>i. registered two_way_store i ''B'' \<longleftrightarrow> registered two_way_store ''B'' i"
    by (simp add: two_way_store_def registered_def relation_def)
  from neighboring_arcs_sources[OF call] both call show ?thesis by blast
qed

text \<open>
  C5. No operation lets a domain gain a value: \<^verbatim>\<open>revise\<close>, \<^verbatim>\<open>inference\<close>,
  fixing a variable to one of its values, \<^verbatim>\<open>backtrack\<close> and
  \<^verbatim>\<open>backtracking_search\<close> each leave every domain a subsequence of what it was
  before, with the same variables. Consequently every assignment state reachable from
  the clone of the declared domains has, for every variable, a subsequence (so a subset,
  no longer) of the declared domain.
\<close>

theorem domains_never_grow:
  "(revise self a i j = Inr (a', r) \<longrightarrow> narrows a' a) \<and>
   (inference pop self a queue = Inr (a', c) \<longrightarrow> narrows a' a) \<and>
   (order_domain_values var a = Inr vals \<and> val \<in> set vals \<longrightarrow>
      narrows (AList.update var [val] a) a) \<and>
   (backtrack depth pop self a = Inr (self', Solution a') \<longrightarrow> narrows a' a) \<and>
   (backtracking_search depth pop self = Inr (self', Solution a') \<longrightarrow>
      narrows a' (domains self)) \<and>
   (reachable self a \<longrightarrow> narrows a (domains self)) \<and>
   (narrows a' a \<longrightarrow>
      map fst a' = map fst a \<and>
      (\<forall>v d'. map_of a' v = Some d' \<longrightarrow>
         (\<exists>d. map_of a v = Some d \<and> subseq d' d \<and> set d' \<subseteq> set d \<and>
              length d' \<le> length d)))"
  using revise_narrows[of self a i j a' r] inference_narrows[of pop self a queue a' c]
    choice_narrows[of var a vals val] backtrack_narrows[of depth pop self a self' a']
    backtracking_search_narrows[of depth pop self self' a'] reachable_narrows[of self a]
    narrows_domains[of a' a]
  by blast

theorem domains_never_grow_witness:
  "narrows [(''A'', [2]), (''B'', [1])] (domains less_store) \<and>
   reachable less_store [(''A'', [2]), (''B'', [1])] \<and>
   (\<exists>d. map_of (domains less_store) ''A'' = Some d \<and> subseq [2] d)"
proof -
  let ?a = "domains less_store"
  let ?a' = "[(''A'', [2::nat]), (''B'', [1])]"
  have rev: "revise less_store ?a ''A'' ''B'' = Inr (?a', True)"
    by (simp add: less_store_def revise_def revise_loop.simps relation_def)
  have reach: "reachable less_store ?a'"
    by (rule reachable.by_revise[OF reachable.clone rev])
  note inst = domains_never_grow[where self = less_store and a = ?a and a' = ?a'
      and i = "''A''" and j = "''B''" and r = True]
  from inst rev have n: "narrows ?a' ?a" by blast
  from inst n have "\<forall>v d'. map_of ?a' v = Some d' \<longrightarrow> (\<exists>d. map_of ?a v = Some d \<and> subseq d' d)"
    by blast
  then have "\<exists>d. map_of ?a ''A'' = Some d \<and> subseq [2] d" by simp
  with n reach show ?thesis by blast
qed

text \<open>
  C7. After the calls \<^verbatim>\<open>add_constraint_one_way(i, j, p)\<close> for the predicates of a
  non-empty list, the relation stored for \<open>(i, j)\<close> is the list the first call started
  from, filtered by the conjunction of all the predicates: the relation already stored,
  or, when none was registered, the product of the two declared domains, so that its
  pairs are exactly the pairs of the product that satisfy every predicate. The relation
  of every other ordered pair, the reverse pair \<open>(j, i)\<close> among them, is neither
  registered nor changed, and the domains are unchanged.
\<close>

theorem one_way_constraints_compose:
  assumes "add_constraints_one_way self i j ps = Inr self'" and "ps \<noteq> []"
  shows "(\<exists>rel. initial_pairs self i j = Some rel \<and>
            relation self' i j = Some (filter (\<lambda>(x, y). \<forall>p \<in> set ps. p x y) rel)) \<and>
         (\<not> registered self i j \<longrightarrow>
            (\<exists>di dj rel'. map_of (domains self) i = Some di \<and> map_of (domains self) j = Some dj \<and>
               relation self' i j = Some rel' \<and>
               set rel' = {(x, y). x \<in> set di \<and> y \<in> set dj \<and> (\<forall>p \<in> set ps. p x y)})) \<and>
         (j \<noteq> i \<longrightarrow> relation self' j i = relation self j i) \<and>
         (\<forall>a b. (a, b) \<noteq> (i, j) \<longrightarrow> relation self' a b = relation self a b) \<and>
         domains self' = domains self"
proof -
  from add_constraints_one_way_relation[OF assms] obtain rel
    where init: "initial_pairs self i j = Some rel"
      and r: "relation self' i j = Some (filter (\<lambda>(x, y). \<forall>p \<in> set ps. p x y) rel)"
      and f: "\<forall>a b. (a, b) \<noteq> (i, j) \<longrightarrow> relation self' a b = relation self a b"
      and d: "domains self' = domains self"
    by blast
  have fresh: "\<exists>di dj rel'. map_of (domains self) i = Some di \<and> map_of (domains self) j = Some dj \<and>
               relation self' i j = Some rel' \<and>
               set rel' = {(x, y). x \<in> set di \<and> y \<in> set dj \<and> (\<forall>p \<in> set ps. p x y)}"
    if "\<not> registered self i j"
  proof -
    from that init obtain di dj where di: "map_of (domains self) i = Some di"
      and dj: "map_of (domains self) j = Some dj" and rel: "rel = List.product di dj"
      by (auto simp: registered_def initial_pairs_def split: option.splits)
    have "set (filter (\<lambda>(x, y). \<forall>p \<in> set ps. p x y) rel) =
          {(x, y). x \<in> set di \<and> y \<in> set dj \<and> (\<forall>p \<in> set ps. p x y)}"
      unfolding rel by auto
    with di dj r show ?thesis by blast
  qed
  from f have "j \<noteq> i \<longrightarrow> relation self' j i = relation self j i" by simp
  with init r f d fresh show ?thesis by blast
qed

theorem one_way_constraints_compose_witness:
  "add_constraints_one_way
     (add_variable (add_variable CSP_init ''A'' [1, 2::nat]) ''B'' [1, 2])
     ''A'' ''B'' [\<lambda>x y. x \<noteq> y, \<lambda>x y. x < y] =
   Inr \<lparr>variables = [''A'', ''B''], domains = [(''A'', [1, 2]), (''B'', [1, 2])],
        constraints = [(''A'', [(''B'', [(1, 2)])]), (''B'', [])],
        backtrack_called = 0, backtrack_failed = 0\<rparr> \<and>
   relation \<lparr>variables = [''A'', ''B''], domains = [(''A'', [1, 2::nat]), (''B'', [1, 2])],
        constraints = [(''A'', [(''B'', [(1, 2)])]), (''B'', [])],
        backtrack_called = 0, backtrack_failed = 0\<rparr> ''B'' ''A'' = None"
proof -
  let ?s = "add_variable (add_variable CSP_init ''A'' [1, 2::nat]) ''B'' [1, 2]"
  let ?s' = "\<lparr>variables = [''A'', ''B''], domains = [(''A'', [1, 2::nat]), (''B'', [1, 2])],
        constraints = [(''A'', [(''B'', [(1, 2)])]), (''B'', [])],
        backtrack_called = 0, backtrack_failed = 0\<rparr>"
  let ?ps = "[\<lambda>x y. x \<noteq> y, \<lambda>x (y::nat). x < y]"
  have run: "add_constraints_one_way ?s ''A'' ''B'' ?ps = Inr ?s'"
    by (simp add: add_constraint_one_way_def add_variable_def CSP_init_def
        get_all_possible_pairs_def)
  have ne: "?ps \<noteq> []" by simp
  have before: "relation ?s ''B'' ''A'' = None"
    by (simp add: relation_def add_variable_def CSP_init_def)
  have "''B'' \<noteq> ''A''" by simp
  with one_way_constraints_compose[OF run ne] have "relation ?s' ''B'' ''A'' = relation ?s ''B'' ''A''"
    by blast
  with before run show ?thesis by simp
qed

text \<open>
  C8. For an assignment in which some variable has more than one value left,
  \<^verbatim>\<open>select_unassigned_variable\<close> returns a variable with more than one value left
  whose domain is no longer than that of any other such variable.
\<close>

theorem select_minimum_remaining_values:
  assumes d: "distinct (map fst assignment)"
    and u: "\<exists>(v, d) \<in> set assignment. length d > 1"
  shows "\<exists>var d. select_unassigned_variable assignment = Inr var \<and>
           map_of assignment var = Some d \<and> length d > 1 \<and>
           (\<forall>(v', d') \<in> set assignment. length d' > 1 \<longrightarrow> length d \<le> length d')"
proof -
  let ?und = "filter (\<lambda>item. length (snd item) > 1) assignment"
  from u have "?und \<noteq> []" by (fastforce simp: filter_empty_conv)
  then obtain item rest where und: "?und = item # rest" by (cases ?und) auto
  let ?m = "min_by (\<lambda>item. length (snd item)) item rest"
  have sel: "select_unassigned_variable assignment = Inr (fst ?m)"
    using und by (simp add: select_unassigned_variable_def)
  from min_by_least[of "\<lambda>item. length (snd item)" item rest]
  have mem: "?m \<in> set ?und" and least: "\<forall>x \<in> set ?und. length (snd ?m) \<le> length (snd x)"
    using und by simp_all
  from mem have in_asg: "?m \<in> set assignment" and big: "length (snd ?m) > 1" by auto
  from in_asg d have "map_of assignment (fst ?m) = Some (snd ?m)"
    by (metis map_of_is_SomeI prod.collapse)
  with sel big least show ?thesis by force
qed

theorem select_minimum_remaining_values_witness:
  "select_unassigned_variable [(''A'', [1, 2, 3::nat]), (''B'', [4]), (''C'', [5, 6])] =
     Inr ''C''"
proof -
  let ?a = "[(''A'', [1, 2, 3::nat]), (''B'', [4]), (''C'', [5, 6])]"
  have d: "distinct (map fst ?a)" by simp
  have u: "\<exists>(v, d) \<in> set ?a. length d > 1" by simp
  from select_minimum_remaining_values[OF d u]
  obtain var d where sel: "select_unassigned_variable ?a = Inr var"
    and dom: "map_of ?a var = Some d" and big: "length d > 1"
    and least: "\<forall>(v', d') \<in> set ?a. length d' > 1 \<longrightarrow> length d \<le> length d'"
    by blast
  from least have "length d \<le> 2" by simp
  with dom big have "var = ''C''" by (auto split: if_splits)
  with sel show ?thesis by simp
qed

text \<open>
  C9. For an assignment without repeated keys: \<^verbatim>\<open>backtrack\<close> never exceeds a
  recursion allowance greater than the number of undecided variables, which is at most
  the number of variables; on a well-formed store it then returns a value; and the loop
  over the candidate values makes its recursive calls only on assignments with strictly
  fewer undecided variables than the caller's, since replacing the recursive call by one
  that refuses every other assignment changes nothing.
\<close>

theorem backtrack_depth_bounded:
  assumes "distinct (map fst assignment)"
  shows "(undecided assignment < depth \<longrightarrow>
            backtrack depth pop self assignment \<noteq> Inl RecursionError) \<and>
         (undecided assignment < depth \<and> well_formed self assignment \<longrightarrow>
            (\<exists>self' result. backtrack depth pop self assignment = Inr (self', result))) \<and>
         (select_unassigned_variable assignment = Inr var \<longrightarrow>
            backtrack_loop rec pop self assignment var vals =
            backtrack_loop
              (\<lambda>s a. if undecided a < undecided assignment then rec s a
                      else Inl RecursionError)
              pop self assignment var vals) \<and>
         undecided assignment \<le> length assignment"
proof -
  have one: "backtrack depth pop self assignment \<noteq> Inl RecursionError"
    if "undecided assignment < depth"
    using assms that by (rule backtrack_depth)
  have two: "\<exists>self' result. backtrack depth pop self assignment = Inr (self', result)"
    if "undecided assignment < depth" and "well_formed self assignment"
    using backtrack_ok[OF that(2,1), of pop] by (auto elim: keeps_storeE)
  have three: "backtrack_loop rec pop self assignment var vals =
            backtrack_loop
              (\<lambda>s a. if undecided a < undecided assignment then rec s a
                      else Inl RecursionError)
              pop self assignment var vals"
    if "select_unassigned_variable assignment = Inr var"
  proof -
    from select_undecided[OF assms that] obtain d
      where "map_of assignment var = Some d" and "length d > 1" by blast
    with assms show ?thesis by (rule backtrack_loop_restrict)
  qed
  from one two three undecided_le_length[of assignment] show ?thesis by blast
qed

theorem backtrack_depth_bounded_witness:
  "undecided (domains two_way_store) = 2 \<and>
   backtrack 3 (\<lambda>a q. 0) two_way_store (domains two_way_store) \<noteq> Inl RecursionError \<and>
   (\<exists>self' result.
      backtrack 3 (\<lambda>a q. 0) two_way_store (domains two_way_store) = Inr (self', result))"
proof -
  let ?a = "domains two_way_store"
  have d: "distinct (map fst ?a)" by (simp add: two_way_store_def)
  have u: "undecided ?a = 2" by (simp add: two_way_store_def undecided_def)
  have wf: "well_formed two_way_store ?a"
    by (simp add: two_way_store_def well_formed_def get_all_arcs_def)
  from backtrack_depth_bounded[OF d, of 3 "\<lambda>a q. 0" two_way_store] u wf
  show ?thesis by simp
qed

text \<open>
  C10. \<^verbatim>\<open>assignment_is_done\<close> returns \<^verbatim>\<open>True\<close> exactly when no domain has more
  than one value, so also when a domain is empty. Hence \<^verbatim>\<open>backtrack\<close> returns an
  assignment that has an empty domain when it is given one, and
  \<^verbatim>\<open>backtracking_search\<close> returns an assignment with an empty domain on the store
  \<open>X = [1]\<close>, \<open>Y = [1]\<close> with \<open>X < Y\<close> registered in both directions, for every
  order of popping.
\<close>

theorem done_accepts_empty_domain:
  "(assignment_is_done assignment \<longleftrightarrow> (\<forall>(v, d) \<in> set assignment. \<not> length d > 1)) \<and>
   assignment_is_done [(''X'', []), (''Y'', [1::nat])] \<and>
   backtrack (Suc depth) pop self [(''X'', []), (''Y'', [1::nat])] =
     Inr (self\<lparr>backtrack_called := backtrack_called self + 1\<rparr>,
          Solution [(''X'', []), (''Y'', [1])]) \<and>
   (\<exists>self' found.
      backtracking_search (Suc depth) pop strict_order_store = Inr (self', Solution found) \<and>
      [] \<in> snd ` set found)"
  using assignment_is_done_iff[of assignment] strict_order_search[of depth pop]
  by simp

theorem done_accepts_empty_domain_witness:
  "assignment_is_done [(''X'', []), (''Y'', [1::nat]), (''Z'', [])] \<and>
   \<not> assignment_is_done [(''X'', []), (''Y'', [1::nat, 2])]"
  using done_accepts_empty_domain[of "[(''X'', []), (''Y'', [1::nat]), (''Z'', [])]" 0 "\<lambda>a q. 0" CSP_init]
    done_accepts_empty_domain[of "[(''X'', []), (''Y'', [1::nat, 2])]" 0 "\<lambda>a q. 0" CSP_init]
  by simp

end
